theory Spec2Isabelle
  imports Main "HOL-Library.FSet" "HOL-Library.AList"
begin

section \<open>Python strings\<close>

text \<open>
  A Python \<open>str\<close> is modelled as a \<open>string\<close>: one \<open>char\<close> per code point, for the code
  points 0 to 255 (ASCII and Latin-1, which holds the umlauts of \<open>replace_str\<close>).
  The character classes below are those of Python 3 on that range.
\<close>

datatype error = IndexError | RecursionError | ExternalError

definition code :: "char \<Rightarrow> nat" where
  "code c = of_char c"

definition is_ascii_upper :: "char \<Rightarrow> bool" where
  "is_ascii_upper c = (65 \<le> code c \<and> code c \<le> 90)"

definition is_ascii_lower :: "char \<Rightarrow> bool" where
  "is_ascii_lower c = (97 \<le> code c \<and> code c \<le> 122)"

definition is_digit :: "char \<Rightarrow> bool" where
  "is_digit c = (48 \<le> code c \<and> code c \<le> 57)"

definition isalpha :: "char \<Rightarrow> bool" where
  \<comment> \<open>\<open>str.isalpha\<close> of one character: the letters of ASCII and of Latin-1.\<close>
  "isalpha c = (is_ascii_upper c \<or> is_ascii_lower c \<or> code c = 170 \<or> code c = 181 \<or> code c = 186
     \<or> (192 \<le> code c \<and> code c \<le> 214) \<or> (216 \<le> code c \<and> code c \<le> 246) \<or> 248 \<le> code c)"

definition isspace :: "char \<Rightarrow> bool" where
  \<comment> \<open>\<open>str.isspace\<close> of one character, which is also the class \<open>\s\<close> of \<open>re\<close>.\<close>
  "isspace c = ((9 \<le> code c \<and> code c \<le> 13) \<or> (28 \<le> code c \<and> code c \<le> 32)
     \<or> code c = 133 \<or> code c = 160)"

definition is_id_char :: "char \<Rightarrow> bool" where
  \<comment> \<open>the class \<open>[A-Za-z0-9_]\<close>\<close>
  "is_id_char c = (is_ascii_upper c \<or> is_ascii_lower c \<or> is_digit c \<or> c = CHR ''_'')"

definition ascii_safe :: "string \<Rightarrow> bool" where
  "ascii_safe s = list_all is_id_char s"

function str_replace :: "string \<Rightarrow> string \<Rightarrow> string \<Rightarrow> string" where
  \<comment> \<open>\<open>s.replace(old, new)\<close>: every occurrence, leftmost first, not overlapping\<close>
  "str_replace old new s =
     (if old = [] then new @ concat (map (\<lambda>c. c # new) s)
      else if s = [] then []
      else if take (length old) s = old then new @ str_replace old new (drop (length old) s)
      else hd s # str_replace old new (tl s))"
  by pat_completeness auto
termination
  by (relation "measure (\<lambda>(old, new, s). length s)") auto

declare str_replace.simps [simp del]

function str_of_nat :: "nat \<Rightarrow> string" where
  \<comment> \<open>\<open>str(n)\<close> and \<open>f"{n}"\<close> of a non-negative integer: its decimal digits\<close>
  "str_of_nat n =
     (if n < 10 then [char_of (48 + n)] else str_of_nat (n div 10) @ [char_of (48 + n mod 10)])"
  by pat_completeness auto
termination
  by (relation "measure id") auto

declare str_of_nat.simps [simp del]

definition nat_of_str :: "string \<Rightarrow> nat" where
  \<comment> \<open>the value of a digit string, used to show that \<open>str_of_nat\<close> is injective\<close>
  "nat_of_str s = foldl (\<lambda>a c. 10 * a + (code c - 48)) 0 s"

section \<open>The identifier allocator (batch\_aas\_from\_stp.py)\<close>

definition dict_replace :: "(string \<times> string) list" where
  "dict_replace =
     [([CHR 0xE4], ''ae''), ([CHR 0xC4], ''Ae''), ([CHR 0xF6], ''oe''), ([CHR 0xD6], ''Oe''),
      ([CHR 0xFC], ''ue''), ([CHR 0xDC], ''Ue''),
      ([CHR 0xB0, CHR ''C''], ''degreeCelsius''),
      ('' '', ''_''), (''-'', ''_''), (''.'', ''''), (''/'', ''''), (''#'', ''''),
      (''%'', ''percentage''), ('','', ''''), (''('', ''''), ('')'', ''''), (''['', ''''),
      ('']'', '''')]"

definition replace_str :: "string \<Rightarrow> string" where
  "replace_str str_input = foldl (\<lambda>result (word, replacement). str_replace word replacement result)
     str_input dict_replace"

definition sub_non_id :: "string \<Rightarrow> string" where
  \<comment> \<open>\<open>re.sub(r"[^A-Za-z0-9_]", "_", s)\<close>\<close>
  "sub_non_id s = map (\<lambda>c. if is_id_char c then c else CHR ''_'') s"

definition check_id_short :: "string \<Rightarrow> error + string" where
  \<comment> \<open>\<open>id_short[0]\<close> raises IndexError on the empty string\<close>
  "check_id_short id_short =
     (case id_short of
        [] \<Rightarrow> Inl IndexError
      | c # _ \<Rightarrow> Inr (sub_non_id (if isalpha c then replace_str id_short else CHR ''X'' # id_short)))"

definition common_props :: "string list" where
  "common_props = [''Type'', ''Level'', ''Product_ID'', ''Source_File'', ''Volume'', ''Surface_Area'']"

definition numbered :: "string \<Rightarrow> nat \<Rightarrow> string" where
  \<comment> \<open>\<open>f"{clean_id}_{counter}"\<close>\<close>
  "numbered clean_id counter = clean_id @ ''_'' @ str_of_nat counter"

function suffix_loop :: "string fset \<Rightarrow> string \<Rightarrow> string \<Rightarrow> nat \<Rightarrow> string" where
  \<comment> \<open>\<open>while unique_id in self.used_ids: unique_id = f"{clean_id}_{counter}"; counter += 1\<close>\<close>
  "suffix_loop used clean_id unique_id counter =
     (if unique_id |\<in>| used then suffix_loop used clean_id (numbered clean_id counter) (Suc counter)
      else unique_id)"
  by pat_completeness auto
termination
proof (relation "measure (\<lambda>(used, clean_id, unique_id, counter).
         card {k. counter \<le> k \<and> numbered clean_id k |\<in>| used}
         + (if unique_id |\<in>| used then 1 else 0))", goal_cases)
  case 1
  show ?case by simp
next
  case (2 used clean_id unique_id counter)
  let ?A = "{k. counter \<le> k \<and> numbered clean_id k |\<in>| used}"
  let ?B = "{k. Suc counter \<le> k \<and> numbered clean_id k |\<in>| used}"
  have value_of: "nat_of_str (str_of_nat n) = n" for n
  proof (induction n rule: str_of_nat.induct)
    case (1 n)
    have digit: "code (char_of (48 + d)) - 48 = d" if "d < 10" for d :: nat
      using that by (simp add: code_def)
    show ?case
    proof (cases "n < 10")
      case True
      then show ?thesis
        by (subst str_of_nat.simps) (simp add: nat_of_str_def digit)
    next
      case False
      then have "nat_of_str (str_of_nat n) = 10 * nat_of_str (str_of_nat (n div 10)) + n mod 10"
        by (subst str_of_nat.simps) (simp add: nat_of_str_def digit)
      with 1 False show ?thesis by simp
    qed
  qed
  have "inj (numbered clean_id)"
  proof (rule injI)
    fix a b assume "numbered clean_id a = numbered clean_id b"
    then have "str_of_nat a = str_of_nat b" by (simp add: numbered_def)
    then show "a = b" by (metis value_of)
  qed
  then have "finite (numbered clean_id -` fset used)"
    by (intro finite_vimageI) simp_all
  moreover have "?A \<subseteq> numbered clean_id -` fset used"
    by auto
  ultimately have fin: "finite ?A"
    by (rule rev_finite_subset)
  show ?case
  proof (cases "numbered clean_id counter |\<in>| used")
    case True
    have "?B = ?A - {counter}" by auto
    moreover have "counter \<in> ?A" using True by simp
    ultimately have "card ?B < card ?A"
      using fin by (metis card_Diff1_less)
    with 2 True show ?thesis by simp
  next
    case False
    have "?B = ?A"
    proof -
      have "\<And>k. counter \<le> k \<Longrightarrow> numbered clean_id k |\<in>| used \<Longrightarrow> Suc counter \<le> k"
        using False by (metis le_antisym not_less_eq_eq)
      then show ?thesis by auto
    qed
    with 2 False show ?thesis by simp
  qed
qed

declare suffix_loop.simps [simp del]

definition get_unique_id :: "string \<Rightarrow> string option \<Rightarrow> string fset \<Rightarrow> error + (string \<times> string fset)" where
  \<comment> \<open>returns the identifier and the new \<open>used_ids\<close>; a context suffix that is \<open>None\<close> or empty is falsy\<close>
  "get_unique_id base_id context_suffix used_ids =
     (case check_id_short base_id of
        Inl e \<Rightarrow> Inl e
      | Inr checked \<Rightarrow>
          let clean_id = (if checked = [] then ''Component'' else checked) in
          if clean_id \<in> set common_props then Inr (clean_id, used_ids)
          else
            (case (if clean_id |\<in>| used_ids \<and> context_suffix \<noteq> None \<and> context_suffix \<noteq> Some []
                   then (case check_id_short (the context_suffix) of
                           Inl e \<Rightarrow> Inl e
                         | Inr suffix_clean \<Rightarrow>
                             let candidate = clean_id @ ''_'' @ suffix_clean in
                             Inr (if candidate |\<notin>| used_ids then candidate else clean_id))
                   else Inr clean_id) of
               Inl e \<Rightarrow> Inl e
             | Inr unique_id \<Rightarrow>
                 let unique_id = suffix_loop used_ids clean_id unique_id 1 in
                 Inr (unique_id, finsert unique_id used_ids)))"

text \<open>A run of the allocator: the calls of one \<open>BatchAASFromSTP\<close> object share \<open>used_ids\<close>.\<close>

definition reserved_label :: "string \<Rightarrow> bool" where
  "reserved_label base_id =
     (case check_id_short base_id of
        Inl e \<Rightarrow> False
      | Inr checked \<Rightarrow> (if checked = [] then ''Component'' else checked) \<in> set common_props)"

fun allocate_all :: "(string \<times> string option) list \<Rightarrow> string fset \<Rightarrow> error + (string list \<times> string fset)" where
  "allocate_all [] used_ids = Inr ([], used_ids)"
| "allocate_all ((base_id, context_suffix) # calls) used_ids =
     (case get_unique_id base_id context_suffix used_ids of
        Inl e \<Rightarrow> Inl e
      | Inr (unique_id, used_ids') \<Rightarrow>
          (case allocate_all calls used_ids' of
             Inl e \<Rightarrow> Inl e
           | Inr (ids, used_ids'') \<Rightarrow> Inr (unique_id # ids, used_ids'')))"


section \<open>The regular expressions of the record extractor\<close>

text \<open>
  The patterns of \<open>BatchStepParser\<close> are sequences of literals, single characters of a
  class, greedy class repetitions and lazy \<open>.*?\<close> (with \<open>re.DOTALL\<close>, any character).
  \<open>rmatch\<close> is the backtracking matcher of \<open>re\<close> on such sequences: a greedy repetition
  tries the longest run first, a lazy one the shortest, and the first choice under which
  the rest of the pattern matches is taken. It returns the groups and the unread text.
\<close>

datatype item =
    Lit string
  | One "char \<Rightarrow> bool"
  | Star "char \<Rightarrow> bool"
  | Digits
  | Lazy_cap
  | Lazy

fun lazy_any :: "(string \<Rightarrow> string \<Rightarrow> 'a option) \<Rightarrow> string \<Rightarrow> string \<Rightarrow> 'a option" where
  "lazy_any k acc s =
     (case k (rev acc) s of
        Some r \<Rightarrow> Some r
      | None \<Rightarrow> (case s of [] \<Rightarrow> None | c # cs \<Rightarrow> lazy_any k (c # acc) cs))"

fun greedy_class :: "(char \<Rightarrow> bool) \<Rightarrow> (string \<Rightarrow> string \<Rightarrow> 'a option) \<Rightarrow> string \<Rightarrow> string \<Rightarrow> 'a option" where
  "greedy_class p k acc [] = k (rev acc) []"
| "greedy_class p k acc (c # cs) =
     (if p c
      then (case greedy_class p k (c # acc) cs of
              Some r \<Rightarrow> Some r
            | None \<Rightarrow> k (rev acc) (c # cs))
      else k (rev acc) (c # cs))"

definition capture :: "string \<Rightarrow> (string list \<times> string) option \<Rightarrow> (string list \<times> string) option" where
  "capture m res = map_option (\<lambda>(caps, rest). (m # caps, rest)) res"

primrec rmatch :: "item list \<Rightarrow> string \<Rightarrow> (string list \<times> string) option" where
  "rmatch [] s = Some ([], s)"
| "rmatch (x # r) s =
     (case x of
        Lit l \<Rightarrow> if take (length l) s = l then rmatch r (drop (length l) s) else None
      | One p \<Rightarrow> (case s of [] \<Rightarrow> None | c # cs \<Rightarrow> if p c then rmatch r cs else None)
      | Star p \<Rightarrow> greedy_class p (\<lambda>m rest. rmatch r rest) [] s
      | Digits \<Rightarrow> greedy_class is_digit (\<lambda>m rest. if m = [] then None else capture m (rmatch r rest)) [] s
      | Lazy_cap \<Rightarrow> lazy_any (\<lambda>m rest. capture m (rmatch r rest)) [] s
      | Lazy \<Rightarrow> lazy_any (\<lambda>m rest. rmatch r rest) [] s)"

function findall :: "item list \<Rightarrow> string \<Rightarrow> string list list" where
  \<comment> \<open>\<open>pattern.findall(s)\<close>: the groups of every match, leftmost first, not overlapping\<close>
  "findall pat s =
     (if s = [] then []
      else (case rmatch pat s of
              None \<Rightarrow> findall pat (tl s)
            | Some (caps, rest) \<Rightarrow>
                caps # findall pat (if length rest < length s then rest else tl s)))"
  by pat_completeness auto
termination
  by (relation "measure (\<lambda>(pat, s). length s)") auto

declare findall.simps [simp del]

definition quote :: "char \<Rightarrow> bool" where
  \<comment> \<open>the class \<open>[\'\"]\<close>\<close>
  "quote c = (c = CHR 0x27 \<or> c = CHR 0x22)"

definition stmt :: "string \<Rightarrow> item list" where
  \<comment> \<open>\<open>#(\d+)\s*=\s*KIND\s*\(\s*\<close>\<close>
  "stmt kind = [Lit ''#'', Digits, Star isspace, Lit ''='', Star isspace, Lit kind, Star isspace,
                Lit ''('', Star isspace]"

definition quoted :: "item list" where
  \<comment> \<open>\<open>[\'\"](.*?)[\'\"]\<close>\<close>
  "quoted = [One quote, Lazy_cap, One quote]"

definition comma :: "item list" where
  \<comment> \<open>\<open>,\s*\<close>\<close>
  "comma = [Lit '','', Star isspace]"

definition entity_ref :: "item list" where
  \<comment> \<open>\<open>#(\d+)\<close>\<close>
  "entity_ref = [Lit ''#'', Digits]"

definition close_stmt :: "item list" where
  \<comment> \<open>\<open>\)\s*;\<close>\<close>
  "close_stmt = [Lit '')'', Star isspace, Lit '';'']"

definition re_product :: "item list" where
  "re_product = stmt ''PRODUCT'' @ quoted @ comma @ quoted @ [Lazy] @ close_stmt"

definition re_annotation :: "item list" where
  "re_annotation = stmt ''DESCRIPTIVE_REPRESENTATION_ITEM'' @ quoted @ comma @ quoted @ [Lazy] @ close_stmt"

definition re_repr :: "item list" where
  "re_repr = stmt ''REPRESENTATION'' @ quoted @ comma @ [Lit ''('', Lazy_cap, Lit '')''] @ comma
     @ entity_ref @ close_stmt"

definition re_prop_def_repr :: "item list" where
  "re_prop_def_repr = stmt ''PROPERTY_DEFINITION_REPRESENTATION'' @ entity_ref @ comma @ entity_ref @ close_stmt"

definition re_prop_def :: "item list" where
  "re_prop_def = stmt ''PROPERTY_DEFINITION'' @ quoted @ comma @ quoted @ comma @ entity_ref @ close_stmt"

definition re_prod_def :: "item list" where
  "re_prod_def = stmt ''PRODUCT_DEFINITION'' @ quoted @ comma @ quoted @ comma @ entity_ref @ comma @ entity_ref
     @ close_stmt"

definition re_formation :: "item list" where
  "re_formation = stmt ''PRODUCT_DEFINITION_FORMATION_WITH_SPECIFIED_SOURCE'' @ quoted @ comma @ quoted
     @ comma @ entity_ref @ [Lit '','', Lazy] @ close_stmt"

definition re_usage :: "item list" where
  "re_usage = stmt ''NEXT_ASSEMBLY_USAGE_OCCURRENCE'' @ quoted @ comma @ quoted @ comma @ entity_ref @ comma
     @ entity_ref @ [Lit '','', Lazy] @ close_stmt"

section \<open>String functions of the parser\<close>

definition strip :: "string \<Rightarrow> string" where
  \<comment> \<open>\<open>s.strip()\<close>\<close>
  "strip s = rev (dropWhile isspace (rev (dropWhile isspace s)))"

definition upper_char :: "char \<Rightarrow> string" where
  \<comment> \<open>\<open>c.upper()\<close>. The sharp s becomes \<open>SS\<close>. The upper cases of the micro sign and of
      y with diaeresis lie beyond code point 255; the two characters stand for them, which
      keeps apart exactly the strings that \<open>upper\<close> keeps apart.\<close>
  "upper_char c =
     (if is_ascii_lower c \<or> (224 \<le> code c \<and> code c \<le> 254 \<and> code c \<noteq> 247) then [char_of (code c - 32)]
      else if code c = 223 then ''SS''
      else [c])"

definition upper :: "string \<Rightarrow> string" where
  "upper s = concat (map upper_char s)"

definition lower_char :: "char \<Rightarrow> char" where
  "lower_char c =
     (if is_ascii_upper c \<or> (192 \<le> code c \<and> code c \<le> 222 \<and> code c \<noteq> 215) then char_of (code c + 32)
      else c)"

definition lower :: "string \<Rightarrow> string" where
  "lower s = map lower_char s"

fun contains :: "string \<Rightarrow> string \<Rightarrow> bool" where
  \<comment> \<open>\<open>sub in s\<close>\<close>
  "contains sub [] = (sub = [])"
| "contains sub (c # cs) = (take (length sub) (c # cs) = sub \<or> contains sub cs)"

definition remove_solidworks_suffix :: "string \<Rightarrow> string" where
  \<comment> \<open>\<open>re.sub(r'-\d+$', '', name.strip())\<close>: a final hyphen with digits is cut off\<close>
  "remove_solidworks_suffix nm =
     (let s = strip nm;
          digits = rev (takeWhile is_digit (rev s));
          front = take (length s - length digits) s
      in if digits \<noteq> [] \<and> front \<noteq> [] \<and> last front = CHR ''-'' then butlast front else s)"

definition basename :: "string \<Rightarrow> string" where
  \<comment> \<open>\<open>os.path.basename\<close>: what follows the last slash\<close>
  "basename path = rev (takeWhile (\<lambda>c. c \<noteq> CHR ''/'') (rev path))"

definition splitext_root :: "string \<Rightarrow> string" where
  \<comment> \<open>\<open>os.path.splitext(p)[0]\<close> of a name without slash: the name up to its last dot,
      when a character other than a dot stands before that dot\<close>
  "splitext_root p =
     (let ext = rev (takeWhile (\<lambda>c. c \<noteq> CHR ''.'') (rev p));
          front = take (length p - length ext) p
      in if front \<noteq> [] \<and> list_ex (\<lambda>c. c \<noteq> CHR ''.'') (butlast front) then butlast front else p)"

section \<open>The parser (batch\_step\_parser.py)\<close>

text \<open>
  A \<open>ComponentNode\<close> object is identified by a reference: the key under which it is
  stored in \<open>all_components\<close>, or \<open>Virtual\<close> for the root object that
  \<open>build_assembly_tree\<close> creates. \<open>children\<close> and \<open>parent\<close> hold references, as the
  Python lists and attributes hold pointers. The measurement bag \<open>geometry_info\<close>, the
  header data \<open>file_info\<close> and the write-only ledgers \<open>all_annotations\<close> and
  \<open>component_annotations\<close> are left out.
\<close>

datatype annotation = Annotation (ann_name: string) (ann_description: string)

datatype product_info = ProductInfo (prod_name: string) (prod_description: string) (prod_id: string)

datatype node_ref = Virtual | Comp string

record relationship =
  parent_product_id :: string
  child_product_id :: string
  parent_product_name :: string
  child_product_name :: string

record ComponentNode =
  name :: string
  product_id :: string
  source_file :: string
  node_type :: string
  children :: "node_ref list"
  parent :: "node_ref option"
  annotations :: "annotation list"
  original_product_id :: string
  annotation_files :: "string list"

record BatchStepParser =
  input_directory :: string
  main_assembly_file :: "string option"
  enable_annotation_fallback :: bool
  all_components :: "(string \<times> ComponentNode) list"
  standard_parts :: "(string \<times> string \<times> string \<times> string) list"
  assembly_relationships :: "relationship list"
  processed_files :: "string list"
  parser_annotation_files :: "string list"
  assembly_tree :: "node_ref option"
  virtual_root :: "ComponentNode option"
  component_name_index :: "(string \<times> node_ref) list"

definition new_node :: "string \<Rightarrow> string \<Rightarrow> string \<Rightarrow> string \<Rightarrow> ComponentNode" where
  \<comment> \<open>\<open>ComponentNode.__init__\<close>\<close>
  "new_node nm pid src ty =
     \<lparr>name = nm, product_id = pid, source_file = src, node_type = ty, children = [], parent = None,
      annotations = [], original_product_id = pid, annotation_files = []\<rparr>"

definition new_parser :: "string \<Rightarrow> string option \<Rightarrow> BatchStepParser" where
  \<comment> \<open>\<open>BatchStepParser.__init__\<close>\<close>
  "new_parser dir main =
     \<lparr>input_directory = dir, main_assembly_file = main, enable_annotation_fallback = False,
      all_components = [], standard_parts = [], assembly_relationships = [], processed_files = [],
      parser_annotation_files = [], assembly_tree = None, virtual_root = None,
      component_name_index = []\<rparr>"

definition has_key :: "('k \<times> 'v) list \<Rightarrow> 'k \<Rightarrow> bool" where
  \<comment> \<open>\<open>k in d\<close> for a dict \<open>d\<close>, held as the list of its items in insertion order\<close>
  "has_key d k = (map_of d k \<noteq> None)"

definition get_default :: "('k \<times> 'v) list \<Rightarrow> 'k \<Rightarrow> 'v \<Rightarrow> 'v" where
  \<comment> \<open>\<open>d.get(k, default)\<close>\<close>
  "get_default d k v = (case map_of d k of None \<Rightarrow> v | Some w \<Rightarrow> w)"

definition path_join :: "string \<Rightarrow> string \<Rightarrow> string" where
  \<comment> \<open>\<open>os.path.join\<close> of two parts\<close>
  "path_join a b =
     (if b \<noteq> [] \<and> hd b = CHR ''/'' then b
      else if a = [] \<or> last a = CHR ''/'' then a @ b
      else a @ ''/'' @ b)"

definition abspath :: "string \<Rightarrow> string" where
  \<comment> \<open>\<open>os.path.abspath\<close>; paths are taken in their absolute, normal form\<close>
  "abspath p = p"

definition load_file_content :: "(string \<Rightarrow> string option) \<Rightarrow> string \<Rightarrow> string" where
  \<comment> \<open>the file system maps a path to the text of the file; a file that cannot be read gives \<open>""\<close>\<close>
  "load_file_content fs filename = (case fs filename of None \<Rightarrow> [] | Some content \<Rightarrow> content)"

definition extract_products_from_content :: "string \<Rightarrow> (string \<times> product_info) list" where
  "extract_products_from_content content =
     fold (\<lambda>caps products.
             case caps of
               [pid, product_name, product_desc] \<Rightarrow>
                 AList.update pid (ProductInfo (strip product_name) (strip product_desc) pid) products
             | _ \<Rightarrow> products)
          (findall re_product content) []"

definition extract_annotations_from_content :: "string \<Rightarrow> (string \<times> annotation) list" where
  "extract_annotations_from_content content =
     fold (\<lambda>caps anns.
             case caps of
               [annotation_id, nm, description] \<Rightarrow>
                 AList.update annotation_id (Annotation (strip nm) (strip description)) anns
             | _ \<Rightarrow> anns)
          (findall re_annotation content) []"

definition append_to :: "'k \<Rightarrow> 'v \<Rightarrow> ('k \<times> 'v list) list \<Rightarrow> ('k \<times> 'v list) list" where
  \<comment> \<open>\<open>d[k].append(v)\<close> for a \<open>defaultdict(list)\<close>\<close>
  "append_to k v d = AList.update k (get_default d k [] @ [v]) d"

definition touch :: "'k \<Rightarrow> ('k \<times> 'v list) list \<Rightarrow> ('k \<times> 'v list) list" where
  \<comment> \<open>reading \<open>d[k]\<close> enters a missing key of a \<open>defaultdict(list)\<close> with \<open>[]\<close>\<close>
  "touch k d = (if has_key d k then d else d @ [(k, [])])"

definition prod_def_to_formation_of :: "string \<Rightarrow> (string \<times> string) list" where
  \<comment> \<open>\<open>{prod_def_id: formation_ref for prod_def_id, _, _, formation_ref, _ in prod_defs}\<close>\<close>
  "prod_def_to_formation_of content =
     fold (\<lambda>caps d. case caps of [prod_def_id, _, _, formation_ref, _] \<Rightarrow> AList.update prod_def_id formation_ref d
                     | _ \<Rightarrow> d)
          (findall re_prod_def content) []"

definition formation_to_product_of :: "string \<Rightarrow> (string \<times> string) list" where
  \<comment> \<open>\<open>{formation_id: product_ref for formation_id, _, _, product_ref in formations}\<close>\<close>
  "formation_to_product_of content =
     fold (\<lambda>caps d. case caps of [formation_id, _, _, product_ref] \<Rightarrow> AList.update formation_id product_ref d
                     | _ \<Rightarrow> d)
          (findall re_formation content) []"

definition prop_def_to_prod_def_of :: "string \<Rightarrow> (string \<times> string) list" where
  \<comment> \<open>\<open>{prop_def_id: prod_def_ref for prop_def_id, _, _, prod_def_ref in prop_defs}\<close>\<close>
  "prop_def_to_prod_def_of content =
     fold (\<lambda>caps d. case caps of [prop_def_id, _, _, prod_def_ref] \<Rightarrow> AList.update prop_def_id prod_def_ref d
                     | _ \<Rightarrow> d)
          (findall re_prop_def content) []"

definition repr_to_annotations_of :: "string \<Rightarrow> (string \<times> annotation) list \<Rightarrow> (string \<times> string list) list" where
  "repr_to_annotations_of content anns =
     fold (\<lambda>caps d.
             case caps of
               [repr_id, repr_name, items_str, context_id] \<Rightarrow>
                 (let item_refs = concat (findall entity_ref items_str);
                      annotations_in_repr = filter (has_key anns) item_refs
                  in if annotations_in_repr \<noteq> [] then AList.update repr_id annotations_in_repr d else d)
             | _ \<Rightarrow> d)
          (findall re_repr content) []"

definition repr_to_product_of ::
  "string \<Rightarrow> (string \<times> product_info) list \<Rightarrow> (string \<times> string list) list \<Rightarrow> (string \<times> string) list" where
  "repr_to_product_of content products repr_to_annotations =
     fold (\<lambda>caps d.
             case caps of
               [pdr_id, prop_def_ref, repr_ref] \<Rightarrow>
                 if has_key repr_to_annotations repr_ref
                    \<and> has_key (prop_def_to_prod_def_of content) prop_def_ref
                 then (case map_of (prop_def_to_prod_def_of content) prop_def_ref of
                         None \<Rightarrow> d
                       | Some prod_def_id \<Rightarrow>
                           (case map_of (prod_def_to_formation_of content) prod_def_id of
                              None \<Rightarrow> d
                            | Some formation_id \<Rightarrow>
                                (case map_of (formation_to_product_of content) formation_id of
                                   None \<Rightarrow> d
                                 | Some pid \<Rightarrow>
                                     if has_key products pid then AList.update repr_ref pid d else d)))
                 else d
             | _ \<Rightarrow> d)
          (findall re_prop_def_repr content) []"

definition fallback_links ::
  "(string \<times> product_info) list \<Rightarrow> (string \<times> annotation) list
     \<Rightarrow> (string \<times> annotation list) list \<Rightarrow> (string \<times> annotation list) list" where
  \<comment> \<open>the branch under \<open>if self.enable_annotation_fallback\<close>\<close>
  "fallback_links products anns product_annotations =
     fold (\<lambda>(pid, info) pa.
             let product_name_lower = lower (prod_name info) in
             fold (\<lambda>(ann_id, ann) pa.
                     let ann_name_lower = lower (ann_name ann);
                         ann_desc_lower = lower (ann_description ann)
                     in if contains product_name_lower ann_name_lower
                           \<or> contains product_name_lower ann_desc_lower
                           \<or> contains ann_name_lower product_name_lower
                        then (if ann \<notin> set (get_default pa pid [])
                              then append_to pid ann (touch pid pa) else touch pid pa)
                        else pa)
                  anns pa)
          products product_annotations"

definition link_annotations_to_products_in_content ::
  "bool \<Rightarrow> string \<Rightarrow> (string \<times> product_info) list \<Rightarrow> (string \<times> annotation) list
     \<Rightarrow> (string \<times> annotation list) list" where
  "link_annotations_to_products_in_content fallback content products anns =
     (let repr_to_annotations = repr_to_annotations_of content anns;
          repr_to_product = repr_to_product_of content products repr_to_annotations;
          product_annotations =
            fold (\<lambda>(repr_id, annotation_ids) pa.
                    case map_of repr_to_product repr_id of
                      None \<Rightarrow> pa
                    | Some pid \<Rightarrow>
                        fold (\<lambda>ann_id pa. case map_of anns ann_id of
                                              None \<Rightarrow> pa
                                            | Some ann \<Rightarrow> append_to pid ann pa)
                             annotation_ids pa)
                 repr_to_annotations []
      in if fallback then fallback_links products anns product_annotations else product_annotations)"

definition resolve_product_from_definition :: "string \<Rightarrow> (string \<times> product_info) list \<Rightarrow> string \<Rightarrow> string option" where
  "resolve_product_from_definition content products prod_def_id =
     (case map_of (prod_def_to_formation_of content) prod_def_id of
        None \<Rightarrow> None
      | Some formation_ref \<Rightarrow>
          (case map_of (formation_to_product_of content) formation_ref of
             None \<Rightarrow> None
           | Some product_ref \<Rightarrow> if has_key products product_ref then Some product_ref else None))"

definition extract_assembly_relationships_from_content ::
  "string \<Rightarrow> (string \<times> product_info) list \<Rightarrow> relationship list \<Rightarrow> relationship list" where
  \<comment> \<open>returns \<open>self.assembly_relationships\<close> with the edges of the document appended\<close>
  "extract_assembly_relationships_from_content content products rels =
     fold (\<lambda>caps rels.
             case caps of
               [usage_id, usage_name, usage_desc, relating_prod_def, related_prod_def] \<Rightarrow>
                 (case (resolve_product_from_definition content products relating_prod_def,
                        resolve_product_from_definition content products related_prod_def) of
                    (Some p, Some c) \<Rightarrow>
                      if p \<noteq> [] \<and> c \<noteq> []
                      then rels @ [\<lparr>parent_product_id = p, child_product_id = c,
                             parent_product_name = (case map_of products p of Some i \<Rightarrow> prod_name i | None \<Rightarrow> []),
                             child_product_name = (case map_of products c of Some i \<Rightarrow> prod_name i | None \<Rightarrow> [])\<rparr>]
                      else rels
                  | _ \<Rightarrow> rels)
             | _ \<Rightarrow> rels)
          (findall re_usage content) rels"

definition join :: "string \<Rightarrow> string list \<Rightarrow> string" where
  \<comment> \<open>\<open>sep.join(xs)\<close>\<close>
  "join sep xs = (case xs of [] \<Rightarrow> [] | x # ys \<Rightarrow> x @ concat (map (\<lambda>y. sep @ y) ys))"

definition standard_keywords :: "string list" where
  "standard_keywords =
     [''screw'', ''bolt'', ''nut'', ''washer'', ''bearing'', ''motor'', ''sensor'',
      ''valve'', ''cylinder'', ''spring'', ''pin'', ''gear'', ''coupling'',
      ''fastener'', ''fitting'', ''connector'', ''switch'', ''relay'',
      ''actuator'', ''encoder'', ''drive'', ''pump'', ''filter'']"

definition manufacturers :: "string list" where
  \<comment> \<open>the alternatives of \<open>(?i)(festo|balluff|...)\<close>\<close>
  "manufacturers =
     [''festo'', ''balluff'', ''hbm'', ''siemens'', ''bosch'', ''parker'', ''smc'', ''omron'',
      ''keyence'', ''sick'', ''ifm'']"

definition is_word :: "char \<Rightarrow> bool" where
  \<comment> \<open>the class \<open>\w\<close>: alphanumeric characters and the underscore\<close>
  "is_word c = (isalpha c \<or> is_digit c \<or> c = CHR ''_'' \<or> code c = 178 \<or> code c = 179 \<or> code c = 185
     \<or> (188 \<le> code c \<and> code c \<le> 190))"

fun search_catalog_number :: "string \<Rightarrow> bool" where
  \<comment> \<open>\<open>re.search(r'[A-Z]{2,}-\d+', s)\<close>\<close>
  "search_catalog_number [] = False"
| "search_catalog_number (c # cs) =
     ((let run = takeWhile is_ascii_upper (c # cs) in
         2 \<le> length run \<and>
         (case drop (length run) (c # cs) of
            h # d # _ \<Rightarrow> h = CHR ''-'' \<and> is_digit d
          | _ \<Rightarrow> False))
      \<or> search_catalog_number cs)"

fun search_part_number :: "char option \<Rightarrow> string \<Rightarrow> bool" where
  \<comment> \<open>\<open>re.search(r'\b[A-Z]\d{4,}\b', s)\<close>, with the character before the text read\<close>
  "search_part_number prev [] = False"
| "search_part_number prev (c # cs) =
     ((is_ascii_upper c \<and> (case prev of None \<Rightarrow> True | Some p \<Rightarrow> \<not> is_word p) \<and>
       (let ds = takeWhile is_digit cs in
          4 \<le> length ds \<and> (case drop (length ds) cs of [] \<Rightarrow> True | d # _ \<Rightarrow> \<not> is_word d)))
      \<or> search_part_number (Some c) cs)"

definition identify_component_type :: "product_info \<Rightarrow> annotation list \<Rightarrow> bool \<Rightarrow> string" where
  "identify_component_type info anns has_children =
     (let product_text = lower (prod_name info @ '' '' @ prod_description info);
          annotation_text = lower (join '' '' (map (\<lambda>ann. ann_name ann @ '' '' @ ann_description ann) anns));
          combined_text = product_text @ '' '' @ annotation_text
      in if list_ex (\<lambda>keyword. contains keyword combined_text) standard_keywords then ''STANDARD_PART''
         else if list_ex (\<lambda>m. contains m (lower combined_text)) manufacturers
                 \<or> search_catalog_number combined_text
                 \<or> search_part_number None combined_text then ''STANDARD_PART''
         else if has_children then ''ASSEMBLY'' else ''PART'')"

definition pad5 :: "string \<Rightarrow> string" where
  \<comment> \<open>the format \<open>05d\<close>: zeros in front up to five digits\<close>
  "pad5 s = replicate (5 - length s) (CHR ''0'') @ s"

definition create_component ::
  "string \<Rightarrow> (string \<times> annotation list) list \<Rightarrow> nat \<times> string \<times> product_info \<Rightarrow> BatchStepParser \<Rightarrow> BatchStepParser" where
  \<comment> \<open>the body of the loop over \<open>enumerate(products.items(), start=1)\<close>\<close>
  "create_component main_path product_annotations entry st =
     (case entry of (index, pid, info) \<Rightarrow>
        let has_children = list_ex (\<lambda>rel. parent_product_id rel = pid) (assembly_relationships st);
            component_annotations = get_default product_annotations pid [];
            ty = (if has_children then ''ASSEMBLY''
                  else identify_component_type info component_annotations has_children);
            component = (new_node (prod_name info) (''P'' @ pad5 (str_of_nat index)) main_path ty)
                          \<lparr>original_product_id := pid, annotations := component_annotations\<rparr>
        in st\<lparr>all_components := AList.update (product_id component) component (all_components st),
               standard_parts :=
                 (if ty = ''STANDARD_PART''
                  then AList.update (product_id component)
                         (''STANDARD_PART'', prod_name info, prod_description info) (standard_parts st)
                  else standard_parts st)\<rparr>)"

definition build_name_index :: "(string \<times> ComponentNode) list \<Rightarrow> (string \<times> node_ref) list" where
  \<comment> \<open>the first component of a key keeps the slot\<close>
  "build_name_index comps =
     fold (\<lambda>(k, comp) idx.
             let key = upper (remove_solidworks_suffix (name comp))
             in if has_key idx key then idx else idx @ [(key, Comp k)])
          comps []"

definition register_components ::
  "string \<Rightarrow> (string \<times> product_info) list \<Rightarrow> (string \<times> annotation list) list
     \<Rightarrow> BatchStepParser \<Rightarrow> BatchStepParser" where
  \<comment> \<open>the second half of \<open>process_main_assembly\<close>: the components, \<open>processed_files\<close>
      and the name index\<close>
  "register_components main_path products product_annotations st =
     (let st2 = fold (create_component main_path product_annotations) (enumerate 1 products) st;
          st3 = st2\<lparr>processed_files := processed_files st2 @ [main_path]\<rparr>
      in st3\<lparr>component_name_index := build_name_index (all_components st3)\<rparr>)"

definition process_main_assembly ::
  "(string \<Rightarrow> string option) \<Rightarrow> string \<Rightarrow> BatchStepParser \<Rightarrow> bool \<times> BatchStepParser" where
  "process_main_assembly fs main_path st =
     (let content = load_file_content fs main_path in
      if content = [] then (False, st)
      else
        let products = extract_products_from_content content;
            anns = extract_annotations_from_content content;
            product_annotations =
              link_annotations_to_products_in_content (enable_annotation_fallback st) content products anns
        in (True,
            register_components main_path products product_annotations
              (st\<lparr>assembly_relationships :=
                    extract_assembly_relationships_from_content content products
                      (assembly_relationships st)\<rparr>)))"

fun merge_annotations :: "annotation list \<Rightarrow> annotation list \<Rightarrow> annotation list" where
  \<comment> \<open>the loop \<open>for ann in all_file_annotations\<close> on \<open>matching_component.annotations\<close>\<close>
  "merge_annotations existing [] = existing"
| "merge_annotations existing (ann # anns) =
     merge_annotations
       (if \<not> list_ex (\<lambda>existing_ann. ann_name existing_ann = ann_name ann
                          \<and> ann_description existing_ann = ann_description ann) existing
        then existing @ [ann] else existing)
       anns"

definition update_node :: "node_ref \<Rightarrow> (ComponentNode \<Rightarrow> ComponentNode) \<Rightarrow> BatchStepParser \<Rightarrow> BatchStepParser" where
  \<comment> \<open>a change of the object behind a reference\<close>
  "update_node r f st =
     (case r of
        Virtual \<Rightarrow> st\<lparr>virtual_root := map_option f (virtual_root st)\<rparr>
      | Comp k \<Rightarrow> st\<lparr>all_components := AList.map_entry k f (all_components st)\<rparr>)"

definition all_file_annotations_of :: "bool \<Rightarrow> string \<Rightarrow> annotation list option" where
  \<comment> \<open>the annotations a document offers, or \<open>None\<close> where the loop says \<open>continue\<close>\<close>
  "all_file_annotations_of fallback content =
     (if content = [] then None
      else if \<not> contains ''DESCRIPTIVE_REPRESENTATION_ITEM'' content
              \<and> \<not> contains ''PROPERTY_DEFINITION_REPRESENTATION'' content then None
      else
        let products = extract_products_from_content content;
            anns = extract_annotations_from_content content;
            product_annotations = link_annotations_to_products_in_content fallback content products anns
        in if anns = [] then None
           else let all_file_annotations = concat (map snd product_annotations)
                in if all_file_annotations = [] then None else Some all_file_annotations)"

definition matching_component_of :: "BatchStepParser \<Rightarrow> string \<Rightarrow> node_ref option" where
  "matching_component_of st filename =
     (let file_base_name = splitext_root (basename filename);
          file_base_clean = remove_solidworks_suffix file_base_name;
          key = upper file_base_clean
      in case map_of (component_name_index st) key of
           None \<Rightarrow> None
         | Some candidate \<Rightarrow> if Some candidate \<noteq> assembly_tree st then Some candidate else None)"

definition supplement_file :: "(string \<Rightarrow> string option) \<Rightarrow> string \<Rightarrow> BatchStepParser \<Rightarrow> BatchStepParser" where
  \<comment> \<open>the body of the loop \<open>for filename in step_files\<close>\<close>
  "supplement_file fs filename st =
     (if (case main_assembly_file st of
            None \<Rightarrow> False
          | Some m \<Rightarrow> m \<noteq> [] \<and> abspath filename = abspath (path_join (input_directory st) m))
      then st
      else
        (case all_file_annotations_of (enable_annotation_fallback st) (load_file_content fs filename) of
           None \<Rightarrow> st
         | Some all_file_annotations \<Rightarrow>
             let st1 =
               (case matching_component_of st filename of
                  None \<Rightarrow> st
                | Some r \<Rightarrow>
                    update_node r
                      (\<lambda>n. n\<lparr>annotations := merge_annotations (annotations n) all_file_annotations,
                              annotation_files :=
                                (if filename \<notin> set (annotation_files n)
                                 then annotation_files n @ [filename] else annotation_files n)\<rparr>)
                      st)
             in st1\<lparr>parser_annotation_files := parser_annotation_files st1 @ [filename]\<rparr>))"

definition supplement_annotations_from_files ::
  "(string \<Rightarrow> string option) \<Rightarrow> string list \<Rightarrow> BatchStepParser \<Rightarrow> BatchStepParser" where
  "supplement_annotations_from_files fs step_files st = fold (supplement_file fs) step_files st"

definition add_child :: "node_ref \<Rightarrow> node_ref \<Rightarrow> BatchStepParser \<Rightarrow> BatchStepParser" where
  \<comment> \<open>\<open>ComponentNode.add_child\<close>: \<open>child.parent = self; self.children.append(child)\<close>\<close>
  "add_child self child st =
     update_node self (\<lambda>n. n\<lparr>children := children n @ [child]\<rparr>)
       (update_node child (\<lambda>n. n\<lparr>parent := Some self\<rparr>) st)"

definition find_component :: "(string \<times> ComponentNode) list \<Rightarrow> string \<Rightarrow> (string \<times> ComponentNode) option" where
  \<comment> \<open>the last component in \<open>all_components.values()\<close> with the original id\<close>
  "find_component comps orig_id =
     fold (\<lambda>(k, comp) found. if original_product_id comp = orig_id then Some (k, comp) else found)
          comps None"

definition link_relationship ::
  "relationship \<Rightarrow> BatchStepParser \<times> string fset \<times> string fset \<Rightarrow> BatchStepParser \<times> string fset \<times> string fset" where
  \<comment> \<open>the body of the loop \<open>for rel in self.assembly_relationships\<close>\<close>
  "link_relationship rel acc =
     (case acc of (st, parent_components, child_components) \<Rightarrow>
        (case (find_component (all_components st) (parent_product_id rel),
               find_component (all_components st) (child_product_id rel)) of
           (Some (pk, parent_comp), Some (ck, child_comp)) \<Rightarrow>
             (add_child (Comp pk) (Comp ck) st,
              finsert (product_id parent_comp) parent_components,
              finsert (product_id child_comp) child_components)
         | _ \<Rightarrow> acc))"

definition virtual_node :: ComponentNode where
  "virtual_node = new_node ''SSI_Anlage_Root'' ''root_assembly'' ''virtual'' ''ASSEMBLY''"

definition attach_to_virtual_root :: "string list \<Rightarrow> BatchStepParser \<Rightarrow> BatchStepParser" where
  \<comment> \<open>a new root object, and \<open>add_child\<close> for each of the components given by their keys\<close>
  "attach_to_virtual_root keys st =
     fold (\<lambda>k st. add_child Virtual (Comp k) st) keys
          (st\<lparr>virtual_root := Some virtual_node, assembly_tree := Some Virtual\<rparr>)"

definition build_assembly_tree :: "BatchStepParser \<Rightarrow> BatchStepParser" where
  "build_assembly_tree st =
     (if assembly_relationships st = [] then attach_to_virtual_root (map fst (all_components st)) st
      else
        (case fold link_relationship (assembly_relationships st) (st, {||}, {||}) of
           (st1, parent_components, child_components) \<Rightarrow>
             let root_candidates =
                   filter (\<lambda>(comp_id, comp). comp_id |\<in>| parent_components \<and> comp_id |\<notin>| child_components)
                          (all_components st1)
             in (case root_candidates of
                   (k, root) # _ \<Rightarrow> st1\<lparr>assembly_tree := Some (Comp k)\<rparr>
                 | [] \<Rightarrow>
                     attach_to_virtual_root
                       (map fst (filter (\<lambda>(comp_id, comp). comp_id |\<notin>| child_components)
                                        (all_components st1)))
                       st1)))"

definition parse_batch ::
  "string list \<Rightarrow> (string \<Rightarrow> string option) \<Rightarrow> BatchStepParser \<Rightarrow> bool \<times> BatchStepParser" where
  \<comment> \<open>\<open>step_files\<close> is what \<open>find_step_files\<close> returns, in the order of discovery\<close>
  "parse_batch step_files fs st =
     (if step_files = [] then (False, st)
      else
        (case (case main_assembly_file st of
                 None \<Rightarrow> (False, st)
               | Some m \<Rightarrow>
                   if m = [] then (False, st)
                   else
                     let main_path = path_join (input_directory st) m in
                     if fs main_path \<noteq> None
                     then (case process_main_assembly fs main_path st of
                             (True, st1) \<Rightarrow> (True, supplement_annotations_from_files fs step_files st1)
                           | (False, st1) \<Rightarrow> (False, st1))
                     else (False, st)) of
           (False, st1) \<Rightarrow> (False, st1)
         | (True, st1) \<Rightarrow> (True, build_assembly_tree st1)))"

section \<open>Views of the parser state\<close>

definition component_keys :: "BatchStepParser \<Rightarrow> string list" where
  "component_keys st = map fst (all_components st)"

definition node_of :: "BatchStepParser \<Rightarrow> node_ref \<Rightarrow> ComponentNode option" where
  \<comment> \<open>the object behind a reference\<close>
  "node_of st r = (case r of Virtual \<Rightarrow> virtual_root st | Comp k \<Rightarrow> map_of (all_components st) k)"

definition children_of :: "BatchStepParser \<Rightarrow> node_ref \<Rightarrow> node_ref list" where
  "children_of st r = (case node_of st r of None \<Rightarrow> [] | Some n \<Rightarrow> children n)"

definition parent_of :: "BatchStepParser \<Rightarrow> node_ref \<Rightarrow> node_ref option" where
  "parent_of st r = (case node_of st r of None \<Rightarrow> None | Some n \<Rightarrow> parent n)"

definition annotations_of :: "BatchStepParser \<Rightarrow> node_ref \<Rightarrow> annotation list" where
  "annotations_of st r = (case node_of st r of None \<Rightarrow> [] | Some n \<Rightarrow> annotations n)"

definition resolve :: "(string \<times> ComponentNode) list \<Rightarrow> string \<Rightarrow> string option" where
  \<comment> \<open>the key of the component that the loop of \<open>build_assembly_tree\<close> finds for an original id\<close>
  "resolve comps orig_id = map_option fst (find_component comps orig_id)"

definition edges_of :: "(string \<times> ComponentNode) list \<Rightarrow> relationship list \<Rightarrow> (string \<times> string) list" where
  "edges_of comps rels =
     List.map_filter
       (\<lambda>rel. case (resolve comps (parent_product_id rel), resolve comps (child_product_id rel)) of
                 (Some pk, Some ck) \<Rightarrow> Some (pk, ck)
               | _ \<Rightarrow> None)
       rels"

definition edges :: "BatchStepParser \<Rightarrow> (string \<times> string) list" where
  \<comment> \<open>the resolved edges in document order, as pairs of keys (parent, child): the relationships
      whose two ends \<open>build_assembly_tree\<close> finds among the components\<close>
  "edges st = edges_of (all_components st) (assembly_relationships st)"

definition root_candidates :: "BatchStepParser \<Rightarrow> string list" where
  \<comment> \<open>the components that are a parent in a resolved edge and never a child\<close>
  "root_candidates st =
     filter (\<lambda>k. k \<in> set (map fst (edges st)) \<and> k \<notin> set (map snd (edges st))) (component_keys st)"

definition orphans :: "BatchStepParser \<Rightarrow> string list" where
  \<comment> \<open>the components that are nobody's child\<close>
  "orphans st = filter (\<lambda>k. k \<notin> set (map snd (edges st))) (component_keys st)"

definition keys_ok :: "BatchStepParser \<Rightarrow> bool" where
  \<comment> \<open>every component is stored under its own \<open>product_id\<close>\<close>
  "keys_ok st = list_all (\<lambda>(k, n). product_id n = k) (all_components st)"

definition unlinked :: "BatchStepParser \<Rightarrow> bool" where
  \<comment> \<open>the state before \<open>build_assembly_tree\<close>: no links, no tree\<close>
  "unlinked st = (list_all (\<lambda>(k, n). children n = [] \<and> parent n = None) (all_components st)
     \<and> assembly_tree st = None \<and> virtual_root st = None)"

definition link_all :: "(node_ref \<times> node_ref) list \<Rightarrow> BatchStepParser \<Rightarrow> BatchStepParser" where
  "link_all rs st = fold (\<lambda>(p, c). add_child p c) rs st"

definition originals :: "(string \<times> ComponentNode) list \<Rightarrow> (string \<times> string \<times> string) list" where
  "originals al = map (\<lambda>(k, n). (k, original_product_id n, product_id n)) al"

definition comp_edges :: "BatchStepParser \<Rightarrow> (node_ref \<times> node_ref) list" where
  "comp_edges st = map (\<lambda>(p, c). (Comp p, Comp c)) (edges st)"

definition pre_build :: "BatchStepParser \<Rightarrow> bool" where
  \<comment> \<open>what holds of the parser between \<open>process_main_assembly\<close> and \<open>build_assembly_tree\<close>\<close>
  "pre_build st = (keys_ok st \<and> unlinked st \<and> distinct (component_keys st))"

definition child_rel :: "BatchStepParser \<Rightarrow> (node_ref \<times> node_ref) set" where
  \<comment> \<open>the pairs (parent, child) of the \<open>children\<close> lists\<close>
  "child_rel st = {(p, c). c \<in> set (children_of st p)}"

definition tree_ok :: "BatchStepParser \<Rightarrow> bool" where
  \<comment> \<open>one root that is nobody's child, no node its own ancestor, every component reachable
      from the root, and no node twice in a \<open>children\<close> list or in the lists of two parents\<close>
  "tree_ok st =
     (\<exists>root. assembly_tree st = Some root \<and> node_of st root \<noteq> None
        \<and> (\<forall>p. root \<notin> set (children_of st p))
        \<and> acyclic (child_rel st)
        \<and> (\<forall>k\<in>set (component_keys st). (root, Comp k) \<in> (child_rel st)\<^sup>*)
        \<and> (\<forall>p. distinct (children_of st p))
        \<and> (\<forall>p p' c. c \<in> set (children_of st p) \<and> c \<in> set (children_of st p') \<longrightarrow> p = p'))"

definition is_main_path :: "BatchStepParser \<Rightarrow> string \<Rightarrow> bool" where
  \<comment> \<open>the test by which the supplementer passes over the primary document\<close>
  "is_main_path st filename =
     (case main_assembly_file st of
        None \<Rightarrow> False
      | Some m \<Rightarrow> m \<noteq> [] \<and> abspath filename = abspath (path_join (input_directory st) m))"

definition merge_into :: "string \<Rightarrow> annotation list \<Rightarrow> ComponentNode \<Rightarrow> ComponentNode" where
  "merge_into filename cands n =
     n\<lparr>annotations := merge_annotations (annotations n) cands,
       annotation_files := (if filename \<notin> set (annotation_files n)
                            then annotation_files n @ [filename] else annotation_files n)\<rparr>"

definition parser_with :: "string \<Rightarrow> string option \<Rightarrow> bool \<Rightarrow> BatchStepParser" where
  \<comment> \<open>a new parser, with the one switch a caller may set before \<open>parse_batch\<close>\<close>
  "parser_with dir main fallback = (new_parser dir main)\<lparr>enable_annotation_fallback := fallback\<rparr>"

definition doc_tree :: string where
  "doc_tree =
     ''#1=PRODUCT('Frame','f',#9);'' @
     ''#2=PRODUCT('Axle-1','a',#9);'' @
     ''#3=PRODUCT_DEFINITION_FORMATION_WITH_SPECIFIED_SOURCE('v','v',#1,$);'' @
     ''#4=PRODUCT_DEFINITION_FORMATION_WITH_SPECIFIED_SOURCE('v','v',#2,$);'' @
     ''#5=PRODUCT_DEFINITION('d','d',#3,#9);'' @
     ''#6=PRODUCT_DEFINITION('d','d',#4,#9);'' @
     ''#7=NEXT_ASSEMBLY_USAGE_OCCURRENCE('u','n',#5,#6,$);''"

definition doc_shared :: string where
  "doc_shared =
     ''#1=PRODUCT('Frame','f',#9);'' @
     ''#2=PRODUCT('Axle','a',#9);'' @
     ''#3=PRODUCT('Arm','r',#9);'' @
     ''#4=PRODUCT_DEFINITION_FORMATION_WITH_SPECIFIED_SOURCE('v','v',#1,$);'' @
     ''#5=PRODUCT_DEFINITION_FORMATION_WITH_SPECIFIED_SOURCE('v','v',#2,$);'' @
     ''#6=PRODUCT_DEFINITION_FORMATION_WITH_SPECIFIED_SOURCE('v','v',#3,$);'' @
     ''#7=PRODUCT_DEFINITION('d','d',#4,#9);'' @
     ''#8=PRODUCT_DEFINITION('d','d',#5,#9);'' @
     ''#9=PRODUCT_DEFINITION('d','d',#6,#9);'' @
     ''#10=NEXT_ASSEMBLY_USAGE_OCCURRENCE('u','n',#7,#8,$);'' @
     ''#11=NEXT_ASSEMBLY_USAGE_OCCURRENCE('u','n',#9,#8,$);''"

definition doc_torque :: string where
  "doc_torque =
     ''#1=PRODUCT('Axle','a',#9);'' @
     ''#2=PRODUCT_DEFINITION_FORMATION_WITH_SPECIFIED_SOURCE('v','v',#1,$);'' @
     ''#3=PRODUCT_DEFINITION('d','d',#2,#9);'' @
     ''#4=DESCRIPTIVE_REPRESENTATION_ITEM('Torque','10 Nm');'' @
     ''#5=DESCRIPTIVE_REPRESENTATION_ITEM('Torque','10 Nm');'' @
     ''#6=REPRESENTATION('r',(#4,#5),#9);'' @
     ''#7=PROPERTY_DEFINITION('p','d',#3);'' @
     ''#8=PROPERTY_DEFINITION_REPRESENTATION(#7,#6);''"

definition tree_state :: BatchStepParser where
  \<comment> \<open>the parser after \<open>process_main_assembly\<close> on \<open>doc_tree\<close>\<close>
  "tree_state =
     register_components ''/d/main.stp''
       [(''1'', ProductInfo ''Frame'' ''f'' ''1''), (''2'', ProductInfo ''Axle-1'' ''a'' ''2'')] []
       ((parser_with ''/d'' (Some ''main.stp'') False)
          \<lparr>assembly_relationships :=
             [\<lparr>parent_product_id = ''1'', child_product_id = ''2'',
                parent_product_name = ''Frame'', child_product_name = ''Axle-1''\<rparr>]\<rparr>)"

definition shared_state :: BatchStepParser where
  \<comment> \<open>the parser after \<open>process_main_assembly\<close> on \<open>doc_shared\<close>\<close>
  "shared_state =
     register_components ''/d/main.stp''
       [(''1'', ProductInfo ''Frame'' ''f'' ''1''), (''2'', ProductInfo ''Axle'' ''a'' ''2''),
        (''3'', ProductInfo ''Arm'' ''r'' ''3'')] []
       ((parser_with ''/d'' (Some ''main.stp'') False)
          \<lparr>assembly_relationships :=
             [\<lparr>parent_product_id = ''1'', child_product_id = ''2'',
                parent_product_name = ''Frame'', child_product_name = ''Axle''\<rparr>,
              \<lparr>parent_product_id = ''3'', child_product_id = ''2'',
                parent_product_name = ''Arm'', child_product_name = ''Axle''\<rparr>]\<rparr>)"

definition torque_state :: BatchStepParser where
  \<comment> \<open>the parser after \<open>process_main_assembly\<close> on \<open>doc_torque\<close>\<close>
  "torque_state =
     register_components ''/d/main.stp'' [(''1'', ProductInfo ''Axle'' ''a'' ''1'')]
       [(''1'', [Annotation ''Torque'' ''10 Nm'', Annotation ''Torque'' ''10 Nm''])]
       ((parser_with ''/d'' (Some ''main.stp'') False)\<lparr>assembly_relationships := []\<rparr>)"

definition aux_files :: "string \<Rightarrow> string option" where
  \<comment> \<open>a directory with the primary document \<open>doc_tree\<close> and three copies of \<open>doc_torque\<close>\<close>
  "aux_files =
     map_of [(''/d/main.stp'', doc_tree), (''/d/Axle.stp'', doc_torque), (''/d/Frame.stp'', doc_torque),
             (''/d/sub/AXLE-2.step'', doc_torque)]"

definition supplemented_state :: BatchStepParser where
  \<comment> \<open>\<open>tree_state\<close> after the supplementer has read \<open>/d/Axle.stp\<close> and \<open>/d/Frame.stp\<close>\<close>
  "supplemented_state =
     (let st1 = (update_node (Comp ''P00002'')
                   (merge_into ''/d/Axle.stp'' [Annotation ''Torque'' ''10 Nm'', Annotation ''Torque'' ''10 Nm''])
                   tree_state)
                \<lparr>parser_annotation_files := parser_annotation_files tree_state @ [''/d/Axle.stp'']\<rparr>
      in (update_node (Comp ''P00001'')
            (merge_into ''/d/Frame.stp'' [Annotation ''Torque'' ''10 Nm'', Annotation ''Torque'' ''10 Nm''])
            st1)
         \<lparr>parser_annotation_files := parser_annotation_files st1 @ [''/d/Frame.stp'']\<rparr>)"

definition doc_empty_data :: string where
  \<comment> \<open>an exchange document without any entity statement\<close>
  "doc_empty_data = ''ISO-10303-21;HEADER;ENDSEC;DATA;ENDSEC;END-ISO-10303-21;''"

section \<open>Properties of the identifier allocator\<close>

lemma suffix_loop_unused: "unique_id |\<notin>| used \<Longrightarrow> suffix_loop used clean_id unique_id c = unique_id"
  by (subst suffix_loop.simps) simp

lemma suffix_loop_fresh: "suffix_loop used clean_id unique_id c |\<notin>| used"
proof (induction used clean_id unique_id c rule: suffix_loop.induct)
  case (1 used clean_id unique_id counter)
  show ?case
  proof (cases "unique_id |\<in>| used")
    case True
    with 1 show ?thesis by (subst suffix_loop.simps) simp
  next
    case False
    then show ?thesis by (simp add: suffix_loop_unused)
  qed
qed

lemma suffix_loop_numbered:
  "unique_id |\<in>| used \<Longrightarrow>
   \<exists>k\<ge>c. suffix_loop used clean_id unique_id c = numbered clean_id k
     \<and> numbered clean_id k |\<notin>| used
     \<and> (\<forall>j. c \<le> j \<and> j < k \<longrightarrow> numbered clean_id j |\<in>| used)"
proof (induction used clean_id unique_id c rule: suffix_loop.induct)
  case (1 used clean_id unique_id counter)
  have step: "suffix_loop used clean_id unique_id counter
      = suffix_loop used clean_id (numbered clean_id counter) (Suc counter)"
    using "1.prems" by (subst suffix_loop.simps) simp
  show ?case
  proof (cases "numbered clean_id counter |\<in>| used")
    case False
    then have "suffix_loop used clean_id unique_id counter = numbered clean_id counter"
      using step by (simp add: suffix_loop_unused)
    with False show ?thesis by auto
  next
    case True
    from "1.IH" [OF "1.prems" True] obtain k where k: "Suc counter \<le> k"
      "suffix_loop used clean_id (numbered clean_id counter) (Suc counter) = numbered clean_id k"
      "numbered clean_id k |\<notin>| used"
      "\<forall>j. Suc counter \<le> j \<and> j < k \<longrightarrow> numbered clean_id j |\<in>| used"
      by blast
    have "\<forall>j. counter \<le> j \<and> j < k \<longrightarrow> numbered clean_id j |\<in>| used"
    proof (intro allI impI)
      fix j assume "counter \<le> j \<and> j < k"
      then have "j = counter \<or> (Suc counter \<le> j \<and> j < k)" by auto
      with True k(4) show "numbered clean_id j |\<in>| used" by auto
    qed
    with k step show ?thesis
      by (intro exI [of _ k]) simp
  qed
qed

lemma get_unique_id_cases:
  assumes "get_unique_id base_id ctx used = Inr (u, used')"
  shows "(reserved_label base_id \<and> used' = used) \<or>
         (\<not> reserved_label base_id \<and> u |\<notin>| used \<and> used' = finsert u used)"
  using assms suffix_loop_fresh
  by (auto simp: get_unique_id_def reserved_label_def Let_def split: sum.splits if_splits)

lemma allocate_all_inv:
  "allocate_all calls used = Inr (ids, used') \<Longrightarrow>
   length ids = length calls \<and> used |\<subseteq>| used' \<and>
   (\<forall>i<length calls. \<not> reserved_label (fst (calls ! i)) \<longrightarrow> ids ! i |\<notin>| used \<and> ids ! i |\<in>| used') \<and>
   (\<forall>i<length calls. \<forall>j<length calls. i < j \<and> \<not> reserved_label (fst (calls ! i))
       \<and> \<not> reserved_label (fst (calls ! j)) \<longrightarrow> ids ! i \<noteq> ids ! j)"
proof (induction calls arbitrary: used ids)
  case Nil
  then show ?case by auto
next
  case (Cons call calls)
  obtain b ctx where call: "call = (b, ctx)" by (cases call)
  from Cons.prems call obtain u u1 us where
    g: "get_unique_id b ctx used = Inr (u, u1)" and
    r: "allocate_all calls u1 = Inr (us, used')" and ids: "ids = u # us"
    by (auto split: sum.splits prod.splits)
  note IH = Cons.IH [OF r]
  from get_unique_id_cases [OF g] have c:
    "(reserved_label b \<and> u1 = used) \<or> (\<not> reserved_label b \<and> u |\<notin>| used \<and> u1 = finsert u used)" .
  have sub: "used |\<subseteq>| u1" using c by auto
  have 1: "length ids = length (call # calls)" using IH ids by simp
  have 2: "used |\<subseteq>| used'" using IH sub by auto
  have 3: "\<forall>i<length (call # calls). \<not> reserved_label (fst ((call # calls) ! i))
             \<longrightarrow> ids ! i |\<notin>| used \<and> ids ! i |\<in>| used'"
  proof (intro allI impI)
    fix i assume i: "i < length (call # calls)" and nr: "\<not> reserved_label (fst ((call # calls) ! i))"
    show "ids ! i |\<notin>| used \<and> ids ! i |\<in>| used'"
    proof (cases i)
      case 0
      with nr call c have "u |\<notin>| used" "u |\<in>| u1" by auto
      with IH 0 ids show ?thesis by auto
    next
      case (Suc i')
      with i nr IH have "us ! i' |\<notin>| u1 \<and> us ! i' |\<in>| used'" by auto
      with sub Suc ids show ?thesis by auto
    qed
  qed
  have 4: "\<forall>i<length (call # calls). \<forall>j<length (call # calls). i < j
             \<and> \<not> reserved_label (fst ((call # calls) ! i))
             \<and> \<not> reserved_label (fst ((call # calls) ! j)) \<longrightarrow> ids ! i \<noteq> ids ! j"
  proof (intro allI impI)
    fix i j assume i: "i < length (call # calls)" and j: "j < length (call # calls)"
      and h: "i < j \<and> \<not> reserved_label (fst ((call # calls) ! i))
             \<and> \<not> reserved_label (fst ((call # calls) ! j))"
    from h obtain j' where j': "j = Suc j'" by (cases j) auto
    with j h IH have uj: "us ! j' |\<notin>| u1" by auto
    show "ids ! i \<noteq> ids ! j"
    proof (cases i)
      case 0
      with h call c have "u |\<in>| u1" by auto
      with uj 0 j' ids show ?thesis by auto
    next
      case (Suc i')
      with i j j' h IH have "us ! i' \<noteq> us ! j'" by auto
      with Suc j' ids show ?thesis by simp
    qed
  qed
  from 1 2 3 4 show ?case by blast
qed

lemma str_replace_head:
  assumes "old \<noteq> []" "s \<noteq> []" "isalpha (hd s)"
    and "isalpha (hd old) \<longrightarrow> new \<noteq> [] \<and> isalpha (hd new)"
  shows "str_replace old new s \<noteq> [] \<and> isalpha (hd (str_replace old new s))"
proof (cases "take (length old) s = old")
  case True
  then have "hd old = hd s" using assms(1,2) by (metis hd_take length_greater_0_conv)
  with assms True show ?thesis
    by (subst str_replace.simps, subst (2) str_replace.simps) simp
next
  case False
  with assms show ?thesis
    by (subst str_replace.simps, subst (2) str_replace.simps) simp
qed

lemma dict_replace_ok:
  "list_all (\<lambda>(old, new). old \<noteq> [] \<and> (isalpha (hd old) \<longrightarrow> new \<noteq> [] \<and> isalpha (hd new))) dict_replace"
  by code_simp

lemma foldl_replace_head:
  assumes "list_all (\<lambda>(old, new). old \<noteq> [] \<and> (isalpha (hd old) \<longrightarrow> new \<noteq> [] \<and> isalpha (hd new))) d"
    and "s \<noteq> []" "isalpha (hd s)"
  shows "foldl (\<lambda>result (word, replacement). str_replace word replacement result) s d \<noteq> []"
  using assms
proof (induction d arbitrary: s)
  case Nil
  then show ?case by simp
next
  case (Cons p d)
  obtain old new where p: "p = (old, new)" by (cases p)
  with Cons.prems have "str_replace old new s \<noteq> [] \<and> isalpha (hd (str_replace old new s))"
    by (intro str_replace_head) auto
  with Cons.IH [of "str_replace old new s"] Cons.prems p show ?case by simp
qed

lemma replace_str_nonempty: "s \<noteq> [] \<Longrightarrow> isalpha (hd s) \<Longrightarrow> replace_str s \<noteq> []"
  unfolding replace_str_def by (rule foldl_replace_head [OF dict_replace_ok])

lemma check_id_short_nonempty: "check_id_short s \<noteq> Inr []"
proof (cases s)
  case Nil
  then show ?thesis by (simp add: check_id_short_def)
next
  case (Cons c cs)
  show ?thesis
  proof (cases "isalpha c")
    case True
    with Cons have "replace_str s \<noteq> []" by (intro replace_str_nonempty) auto
    with Cons True show ?thesis by (simp add: check_id_short_def sub_non_id_def)
  next
    case False
    with Cons show ?thesis by (simp add: check_id_short_def sub_non_id_def)
  qed
qed

lemma check_id_short_total: "s \<noteq> [] \<Longrightarrow> \<exists>c. check_id_short s = Inr c"
  by (cases s) (auto simp: check_id_short_def)

lemma check_id_short_safe: "check_id_short s = Inr c \<Longrightarrow> ascii_safe c"
  by (cases s) (auto simp: check_id_short_def sub_non_id_def ascii_safe_def list_all_iff is_id_char_def)

lemma str_of_nat_safe: "ascii_safe (str_of_nat n)"
proof (induction n rule: str_of_nat.induct)
  case (1 n)
  have d: "\<And>d::nat. d < 10 \<Longrightarrow> is_id_char (char_of (48 + d))"
    by (simp add: is_id_char_def is_digit_def code_def)
  show ?case
  proof (cases "n < 10")
    case True
    then show ?thesis by (subst str_of_nat.simps) (simp add: ascii_safe_def d)
  next
    case False
    with 1 show ?thesis by (subst str_of_nat.simps) (simp add: ascii_safe_def d)
  qed
qed

lemma numbered_safe: "ascii_safe c \<Longrightarrow> ascii_safe (numbered c k)"
  using str_of_nat_safe [of k] by (simp add: numbered_def ascii_safe_def is_id_char_def)

lemma suffix_loop_safe:
  "ascii_safe clean_id \<Longrightarrow> ascii_safe unique_id \<Longrightarrow> ascii_safe (suffix_loop used clean_id unique_id c)"
proof (cases "unique_id |\<in>| used")
  case True
  assume "ascii_safe clean_id"
  with suffix_loop_numbered [OF True, of c clean_id] show ?thesis
    by (auto simp: numbered_safe)
next
  case False
  assume "ascii_safe unique_id"
  with False show ?thesis by (simp add: suffix_loop_unused)
qed

lemma common_props_safe: "c \<in> set common_props \<Longrightarrow> ascii_safe c"
proof -
  have "list_all ascii_safe common_props" by code_simp
  then show "c \<in> set common_props \<Longrightarrow> ascii_safe c" by (simp add: list_all_iff)
qed

lemma get_unique_id_safe:
  assumes "get_unique_id base_id ctx used = Inr (u, used')"
  shows "ascii_safe u"
proof -
  from assms obtain checked where ch: "check_id_short base_id = Inr checked"
    by (auto simp: get_unique_id_def split: sum.splits)
  then have checked: "checked \<noteq> []" "ascii_safe checked"
    using check_id_short_nonempty [of base_id] check_id_short_safe by auto
  show ?thesis
  proof (cases "checked \<in> set common_props")
    case True
    with assms ch checked show ?thesis by (auto simp: get_unique_id_def)
  next
    case False
    have cand: "\<And>sc. ascii_safe sc \<Longrightarrow> ascii_safe (checked @ ''_'' @ sc)"
      using checked(2) by (auto simp: ascii_safe_def is_id_char_def)
    from assms ch checked(1) False obtain pre where
      pre: "u = suffix_loop used checked pre 1" "ascii_safe pre"
      using checked(2) cand
      by (auto simp: get_unique_id_def Let_def split: sum.splits if_splits
               dest!: check_id_short_safe)
    with checked(2) show ?thesis by (simp add: suffix_loop_safe)
  qed
qed

lemma get_unique_id_total:
  assumes "base_id \<noteq> []"
  shows "\<exists>u used'. get_unique_id base_id ctx used = Inr (u, used')"
proof -
  from assms obtain checked where ch: "check_id_short base_id = Inr checked"
    using check_id_short_total by blast
  have "ctx \<noteq> None \<Longrightarrow> ctx \<noteq> Some [] \<Longrightarrow> \<exists>sc. check_id_short (the ctx) = Inr sc"
    by (cases ctx) (auto intro: check_id_short_total)
  with ch show ?thesis
    by (auto simp: get_unique_id_def Let_def split: sum.splits)
qed

lemma common_props_fixed: "l \<in> set common_props \<Longrightarrow> check_id_short l = Inr l"
proof -
  have "list_all (\<lambda>l. check_id_short l = Inr l) common_props" by code_simp
  then show "l \<in> set common_props \<Longrightarrow> check_id_short l = Inr l" by (simp add: list_all_iff)
qed

lemma get_unique_id_reserved:
  assumes "check_id_short base_id = Inr clean" "clean \<in> set common_props"
  shows "get_unique_id base_id ctx used = Inr (clean, used)"
  using assms check_id_short_nonempty [of base_id] by (auto simp: get_unique_id_def)

lemma reserved_label_iff:
  "check_id_short base_id = Inr clean \<Longrightarrow> reserved_label base_id = (clean \<in> set common_props)"
  using check_id_short_nonempty [of base_id] by (auto simp: reserved_label_def)

lemma get_unique_id_protocol:
  assumes ch: "check_id_short base_id = Inr clean" and nr: "clean \<notin> set common_props"
  shows "\<exists>u. get_unique_id base_id ctx used = Inr (u, finsert u used) \<and> u |\<notin>| used \<and>
      (clean |\<notin>| used \<longrightarrow> u = clean) \<and>
      (\<forall>s sc. clean |\<in>| used \<and> ctx = Some s \<and> s \<noteq> [] \<and> check_id_short s = Inr sc
          \<and> clean @ ''_'' @ sc |\<notin>| used \<longrightarrow> u = clean @ ''_'' @ sc) \<and>
      (clean |\<in>| used \<and> (ctx = None \<or> ctx = Some [] \<or>
          (\<exists>s sc. ctx = Some s \<and> check_id_short s = Inr sc \<and> clean @ ''_'' @ sc |\<in>| used))
        \<longrightarrow> (\<exists>k\<ge>1. u = numbered clean k \<and>
               (\<forall>j. 1 \<le> j \<and> j < k \<longrightarrow> numbered clean j |\<in>| used)))"
proof -
  have ne: "base_id \<noteq> []" using ch by (auto simp: check_id_short_def)
  from get_unique_id_total [OF ne] obtain u used' where
    g: "get_unique_id base_id ctx used = Inr (u, used')" by blast
  have nres: "\<not> reserved_label base_id" using ch nr by (simp add: reserved_label_iff)
  with get_unique_id_cases [OF g] have fresh: "u |\<notin>| used" "used' = finsert u used" by auto
  have clean_ne: "clean \<noteq> []" using ch check_id_short_nonempty [of base_id] by auto
  have a: "clean |\<notin>| used \<longrightarrow> u = clean"
    using g ch nr clean_ne by (auto simp: get_unique_id_def Let_def suffix_loop_unused)
  have b: "\<forall>s sc. clean |\<in>| used \<and> ctx = Some s \<and> s \<noteq> [] \<and> check_id_short s = Inr sc
          \<and> clean @ ''_'' @ sc |\<notin>| used \<longrightarrow> u = clean @ ''_'' @ sc"
    using g ch nr clean_ne by (auto simp: get_unique_id_def Let_def suffix_loop_unused)
  have c: "clean |\<in>| used \<and> (ctx = None \<or> ctx = Some [] \<or>
          (\<exists>s sc. ctx = Some s \<and> check_id_short s = Inr sc \<and> clean @ ''_'' @ sc |\<in>| used))
        \<longrightarrow> (\<exists>k\<ge>1. u = numbered clean k \<and>
               (\<forall>j. 1 \<le> j \<and> j < k \<longrightarrow> numbered clean j |\<in>| used))"
  proof
    assume h: "clean |\<in>| used \<and> (ctx = None \<or> ctx = Some [] \<or>
          (\<exists>s sc. ctx = Some s \<and> check_id_short s = Inr sc \<and> clean @ ''_'' @ sc |\<in>| used))"
    then have "u = suffix_loop used clean clean 1"
      using g ch nr clean_ne
      by (auto simp: get_unique_id_def Let_def split: sum.splits if_splits)
    with suffix_loop_numbered [of clean used 1 clean] h show
      "\<exists>k\<ge>1. u = numbered clean k \<and> (\<forall>j. 1 \<le> j \<and> j < k \<longrightarrow> numbered clean j |\<in>| used)"
      by auto
  qed
  from g fresh(2) have g': "get_unique_id base_id ctx used = Inr (u, finsert u used)" by simp
  from g' fresh(1) a b c show ?thesis by (intro exI [of _ u] conjI)
qed

text \<open>
  Claim C8, as amended. In every sequence of calls of \<open>get_unique_id\<close> that share one
  \<open>used_ids\<close>, any two calls whose sanitized label (the result of \<open>check_id_short\<close>) is
  outside \<open>common_props\<close> return distinct identifiers. A call with one of the six reserved
  labels, and more generally a call whose sanitized label is reserved, returns that label and
  leaves \<open>used_ids\<close> as it was. Every other call returns an identifier that was not in
  \<open>used_ids\<close> and enters it: the sanitized label when that is free; on collision the label
  with the sanitized context token appended, when a non-empty token is given and that
  candidate is free; otherwise the label with the least numeric suffix, counting from 1,
  that is free.
\<close>

theorem get_unique_id_distinct:
  "(allocate_all calls used = Inr (ids, used') \<longrightarrow>
      length ids = length calls \<and>
      (\<forall>i<length calls. \<forall>j<length calls.
          i \<noteq> j \<and> \<not> reserved_label (fst (calls ! i)) \<and> \<not> reserved_label (fst (calls ! j))
          \<longrightarrow> ids ! i \<noteq> ids ! j)) \<and>
   (\<forall>l\<in>set common_props. get_unique_id l ctx used = Inr (l, used)) \<and>
   (check_id_short base_id = Inr clean \<and> reserved_label base_id
      \<longrightarrow> get_unique_id base_id ctx used = Inr (clean, used)) \<and>
   (check_id_short base_id = Inr clean \<and> \<not> reserved_label base_id \<longrightarrow>
      (\<exists>u. get_unique_id base_id ctx used = Inr (u, finsert u used) \<and> u |\<notin>| used \<and>
        (clean |\<notin>| used \<longrightarrow> u = clean) \<and>
        (\<forall>s sc. clean |\<in>| used \<and> ctx = Some s \<and> s \<noteq> [] \<and> check_id_short s = Inr sc
            \<and> clean @ ''_'' @ sc |\<notin>| used \<longrightarrow> u = clean @ ''_'' @ sc) \<and>
        (clean |\<in>| used \<and> (ctx = None \<or> ctx = Some [] \<or>
            (\<exists>s sc. ctx = Some s \<and> check_id_short s = Inr sc \<and> clean @ ''_'' @ sc |\<in>| used))
          \<longrightarrow> (\<exists>k\<ge>1. u = numbered clean k \<and>
                 (\<forall>j. 1 \<le> j \<and> j < k \<longrightarrow> numbered clean j |\<in>| used)))))"
proof (intro conjI impI ballI)
  assume r: "allocate_all calls used = Inr (ids, used')"
  from allocate_all_inv [OF r] show "length ids = length calls" by blast
  show "\<forall>i<length calls. \<forall>j<length calls.
          i \<noteq> j \<and> \<not> reserved_label (fst (calls ! i)) \<and> \<not> reserved_label (fst (calls ! j))
          \<longrightarrow> ids ! i \<noteq> ids ! j"
  proof (intro allI impI)
    fix i j assume i: "i < length calls" and j: "j < length calls"
      and h: "i \<noteq> j \<and> \<not> reserved_label (fst (calls ! i)) \<and> \<not> reserved_label (fst (calls ! j))"
    from h have "i < j \<or> j < i" by auto
    then show "ids ! i \<noteq> ids ! j"
    proof
      assume "i < j"
      with allocate_all_inv [OF r] i j h show ?thesis by blast
    next
      assume "j < i"
      with allocate_all_inv [OF r] i j h have "ids ! j \<noteq> ids ! i" by blast
      then show ?thesis by simp
    qed
  qed
next
  fix l assume "l \<in> set common_props"
  then show "get_unique_id l ctx used = Inr (l, used)"
    by (simp add: get_unique_id_reserved common_props_fixed)
next
  assume "check_id_short base_id = Inr clean \<and> reserved_label base_id"
  then show "get_unique_id base_id ctx used = Inr (clean, used)"
    using reserved_label_iff [of base_id clean] by (auto intro: get_unique_id_reserved)
next
  assume "check_id_short base_id = Inr clean \<and> \<not> reserved_label base_id"
  then have "check_id_short base_id = Inr clean" "clean \<notin> set common_props"
    using reserved_label_iff [of base_id clean] by auto
  then show "\<exists>u. get_unique_id base_id ctx used = Inr (u, finsert u used) \<and> u |\<notin>| used \<and>
        (clean |\<notin>| used \<longrightarrow> u = clean) \<and>
        (\<forall>s sc. clean |\<in>| used \<and> ctx = Some s \<and> s \<noteq> [] \<and> check_id_short s = Inr sc
            \<and> clean @ ''_'' @ sc |\<notin>| used \<longrightarrow> u = clean @ ''_'' @ sc) \<and>
        (clean |\<in>| used \<and> (ctx = None \<or> ctx = Some [] \<or>
            (\<exists>s sc. ctx = Some s \<and> check_id_short s = Inr sc \<and> clean @ ''_'' @ sc |\<in>| used))
          \<longrightarrow> (\<exists>k\<ge>1. u = numbered clean k \<and>
                 (\<forall>j. 1 \<le> j \<and> j < k \<longrightarrow> numbered clean j |\<in>| used)))"
    by (rule get_unique_id_protocol)
qed

theorem get_unique_id_distinct_witness:
  "allocate_all [(''Bolt'', None), (''Bolt'', Some ''P00002''), (''Type'', None),
       (''Bolt'', Some ''P00002''), (''Type'', None), (''Bolt'', None)] {||}
     = Inr ([''Bolt'', ''Bolt_P00002'', ''Type'', ''Bolt_1'', ''Type'', ''Bolt_2''],
            {|''Bolt_2'', ''Bolt_1'', ''Bolt_P00002'', ''Bolt''|}) \<and>
   \<not> reserved_label ''Bolt'' \<and> reserved_label ''Type'' \<and>
   ''Bolt_P00002'' \<noteq> ''Bolt_2'' \<and>
   get_unique_id ''Type'' None {|''Bolt''|} = Inr (''Type'', {|''Bolt''|}) \<and>
   get_unique_id ''Bolt'' None {|''Bolt''|} = Inr (''Bolt_1'', {|''Bolt_1'', ''Bolt''|})"
proof -
  let ?calls = "[(''Bolt'', None), (''Bolt'', Some ''P00002''), (''Type'', None),
       (''Bolt'', Some ''P00002''), (''Type'', None), (''Bolt'', None)]"
  let ?ids = "[''Bolt'', ''Bolt_P00002'', ''Type'', ''Bolt_1'', ''Type'', ''Bolt_2'']"
  let ?used = "{|''Bolt_2'', ''Bolt_1'', ''Bolt_P00002'', ''Bolt''|}"
  have run: "allocate_all ?calls {||} = Inr (?ids, ?used)"
    by code_simp
  have nr: "\<not> reserved_label ''Bolt''" and r: "reserved_label ''Type''"
    by code_simp+
  have one: "get_unique_id ''Bolt'' None {|''Bolt''|} = Inr (''Bolt_1'', {|''Bolt_1'', ''Bolt''|})"
    by code_simp
  have "?ids ! 1 \<noteq> ?ids ! 5"
    using get_unique_id_distinct [of "?calls" "{||}" "?ids" "?used" None "''Type''" "''Type''"] run nr
    by (simp add: numeral_eq_Suc)
  moreover have "get_unique_id ''Type'' None {|''Bolt''|} = Inr (''Type'', {|''Bolt''|})"
    using get_unique_id_distinct [of "[]" "{|''Bolt''|}" "[]" "{|''Bolt''|}" None "''Type''" "''Type''"]
    by (simp add: common_props_def)
  ultimately show ?thesis
    using run nr r one by simp
qed

text \<open>
  Claim C8 as stated fails: the reserved set is tested on the sanitized label, so the
  requested label \<open>Surface Area\<close>, which is not in the reserved set, is returned twice as
  the same identifier \<open>Surface_Area\<close>, and the ledger stays empty.
\<close>

theorem get_unique_id_requested_label_counterexample:
  "''Surface Area'' \<notin> set common_props \<and>
   allocate_all [(''Surface Area'', None), (''Surface Area'', None)] {||}
     = Inr ([''Surface_Area'', ''Surface_Area''], {||})"
  by code_simp

lemma get_unique_id_two_calls:
  assumes "b1 \<noteq> []" "b2 \<noteq> []" "\<not> reserved_label b1"
  shows "\<exists>a u1 b u2. get_unique_id b1 c1 used = Inr (a, u1) \<and> get_unique_id b2 c2 u1 = Inr (b, u2)
           \<and> (\<not> reserved_label b2 \<longrightarrow> a \<noteq> b) \<and> ascii_safe a \<and> ascii_safe b"
proof -
  from get_unique_id_total [OF assms(1)] obtain a u1 where
    a: "get_unique_id b1 c1 used = Inr (a, u1)" by blast
  from get_unique_id_total [OF assms(2)] obtain b u2 where
    b: "get_unique_id b2 c2 u1 = Inr (b, u2)" by blast
  from get_unique_id_cases [OF a] assms(3) have "a |\<in>| u1" by auto
  moreover from get_unique_id_cases [OF b] have "\<not> reserved_label b2 \<longrightarrow> b |\<notin>| u1" by auto
  ultimately have "\<not> reserved_label b2 \<longrightarrow> a \<noteq> b" by auto
  with a b get_unique_id_safe [OF a] get_unique_id_safe [OF b] show ?thesis by blast
qed

text \<open>
  Claim C9. Allocating identifiers for the labels \<open>Aussenring-1\<close> written with a sharp s
  (code point 223) and \<open>Aussenring\<close> in one run, in either order, with any context
  tokens and from any state of \<open>used_ids\<close>, returns two identifiers that are distinct and
  consist of characters of \<open>[A-Za-z0-9_]\<close> only. In a fresh run they are \<open>Au_enring_1\<close>
  and \<open>Aussenring\<close>.
\<close>

theorem aussenring_ids_distinct:
  "(\<exists>a u1 b u2. get_unique_id (''Au'' @ [CHR 0xDF] @ ''enring-1'') c1 used = Inr (a, u1)
       \<and> get_unique_id ''Aussenring'' c2 u1 = Inr (b, u2)
       \<and> a \<noteq> b \<and> ascii_safe a \<and> ascii_safe b) \<and>
   (\<exists>a u1 b u2. get_unique_id ''Aussenring'' c1 used = Inr (a, u1)
       \<and> get_unique_id (''Au'' @ [CHR 0xDF] @ ''enring-1'') c2 u1 = Inr (b, u2)
       \<and> a \<noteq> b \<and> ascii_safe a \<and> ascii_safe b) \<and>
   allocate_all [(''Au'' @ [CHR 0xDF] @ ''enring-1'', None), (''Aussenring'', None)] {||}
     = Inr ([''Au_enring_1'', ''Aussenring''], {|''Aussenring'', ''Au_enring_1''|})"
proof -
  have nr: "\<not> reserved_label (''Au'' @ [CHR 0xDF] @ ''enring-1'')" "\<not> reserved_label ''Aussenring''"
    by code_simp+
  have run: "allocate_all [(''Au'' @ [CHR 0xDF] @ ''enring-1'', None), (''Aussenring'', None)] {||}
     = Inr ([''Au_enring_1'', ''Aussenring''], {|''Aussenring'', ''Au_enring_1''|})"
    by code_simp
  from get_unique_id_two_calls [of "''Au'' @ [CHR 0xDF] @ ''enring-1''" "''Aussenring''" c1 used c2]
    get_unique_id_two_calls [of "''Aussenring''" "''Au'' @ [CHR 0xDF] @ ''enring-1''" c1 used c2]
    nr run
  show ?thesis by simp
qed

lemma map_fst_map_entry: "map fst (AList.map_entry k f al) = map fst al"
  by (induction al) auto

lemma node_of_update_node:
  "node_of (update_node r f st) r' = (if r' = r then map_option f (node_of st r) else node_of st r')"
  by (cases r; cases r') (auto simp: node_of_def update_node_def map_of_map_entry split: option.splits)

lemma keys_update_node [simp]: "component_keys (update_node r f st) = component_keys st"
  by (cases r) (simp_all add: component_keys_def update_node_def map_fst_map_entry)

lemma update_node_fields [simp]:
  "assembly_tree (update_node r f st) = assembly_tree st"
  "assembly_relationships (update_node r f st) = assembly_relationships st"
  "component_name_index (update_node r f st) = component_name_index st"
  "main_assembly_file (update_node r f st) = main_assembly_file st"
  "input_directory (update_node r f st) = input_directory st"
  "enable_annotation_fallback (update_node r f st) = enable_annotation_fallback st"
  "parser_annotation_files (update_node r f st) = parser_annotation_files st"
  "processed_files (update_node r f st) = processed_files st"
  "standard_parts (update_node r f st) = standard_parts st"
  by (cases r; simp add: update_node_def)+

lemma node_of_add_child:
  "node_of (add_child p c st) r =
     (let n1 = (if r = c then map_option (\<lambda>n. n\<lparr>parent := Some p\<rparr>) (node_of st r) else node_of st r)
      in if r = p then map_option (\<lambda>n. n\<lparr>children := children n @ [c]\<rparr>) n1 else n1)"
  by (simp add: add_child_def node_of_update_node Let_def)

lemma children_of_add_child:
  "children_of (add_child p c st) r =
     (if r = p \<and> node_of st p \<noteq> None then children_of st r @ [c] else children_of st r)"
  by (auto simp: children_of_def node_of_add_child Let_def split: option.splits)

lemma parent_of_add_child:
  "parent_of (add_child p c st) r =
     (if r = c \<and> node_of st c \<noteq> None then Some p else parent_of st r)"
  by (auto simp: parent_of_def node_of_add_child Let_def split: option.splits)

lemma annotations_of_add_child [simp]: "annotations_of (add_child p c st) r = annotations_of st r"
  by (auto simp: annotations_of_def node_of_add_child Let_def split: option.splits)

lemma has_node_add_child [simp]: "(node_of (add_child p c st) r = None) = (node_of st r = None)"
  by (auto simp: node_of_add_child Let_def)

lemma keys_add_child [simp]: "component_keys (add_child p c st) = component_keys st"
  by (simp add: add_child_def)

lemma add_child_fields [simp]:
  "assembly_tree (add_child p c st) = assembly_tree st"
  "assembly_relationships (add_child p c st) = assembly_relationships st"
  "component_name_index (add_child p c st) = component_name_index st"
  by (simp_all add: add_child_def)

lemma link_all_simps [simp]:
  "link_all [] st = st"
  "link_all ((p, c) # rs) st = link_all rs (add_child p c st)"
  "link_all (rs @ rs') st = link_all rs' (link_all rs st)"
  by (simp_all add: link_all_def)

lemma has_node_link_all [simp]: "(node_of (link_all rs st) r = None) = (node_of st r = None)"
  by (induction rs arbitrary: st) auto

lemma keys_link_all [simp]: "component_keys (link_all rs st) = component_keys st"
  by (induction rs arbitrary: st) auto

lemma link_all_fields [simp]:
  "assembly_tree (link_all rs st) = assembly_tree st"
  "assembly_relationships (link_all rs st) = assembly_relationships st"
  "component_name_index (link_all rs st) = component_name_index st"
  by (induction rs arbitrary: st; auto)+

lemma annotations_of_link_all [simp]: "annotations_of (link_all rs st) r = annotations_of st r"
  by (induction rs arbitrary: st) auto

lemma children_of_link_all:
  assumes "\<forall>(p, c)\<in>set rs. node_of st p \<noteq> None"
  shows "children_of (link_all rs st) r = children_of st r @ map snd (filter (\<lambda>e. fst e = r) rs)"
  using assms
proof (induction rs arbitrary: st)
  case Nil
  then show ?case by simp
next
  case (Cons e rs)
  obtain p c where e: "e = (p, c)" by (cases e)
  have "\<forall>(p, c)\<in>set rs. node_of (add_child p c st) p \<noteq> None"
    using Cons.prems by auto
  then have "\<forall>(p', c')\<in>set rs. node_of (add_child p c st) p' \<noteq> None"
    using Cons.prems by auto
  from Cons.IH [OF this] Cons.prems e show ?case
    by (auto simp: children_of_add_child)
qed

lemma parent_of_link_all:
  assumes "\<forall>(p, c)\<in>set rs. node_of st c \<noteq> None"
  shows "parent_of (link_all rs st) r =
           (if filter (\<lambda>e. snd e = r) rs = [] then parent_of st r
            else Some (fst (last (filter (\<lambda>e. snd e = r) rs))))"
  using assms
proof (induction rs arbitrary: st rule: rev_induct)
  case Nil
  then show ?case by simp
next
  case (snoc e rs)
  obtain p c where e: "e = (p, c)" by (cases e)
  have ex: "node_of (link_all rs st) c \<noteq> None" using snoc.prems e by auto
  have IH: "parent_of (link_all rs st) r =
           (if filter (\<lambda>e. snd e = r) rs = [] then parent_of st r
            else Some (fst (last (filter (\<lambda>e. snd e = r) rs))))"
    using snoc by auto
  show ?case
  proof (cases "c = r")
    case True
    with e ex show ?thesis
      by (simp add: parent_of_add_child)
  next
    case False
    with e IH show ?thesis
      by (simp add: parent_of_add_child)
  qed
qed

lemma find_component_fold:
  "map_option fst (fold (\<lambda>(k, comp) found. if original_product_id comp = oid then Some (k, comp) else found) al acc)
     = fold (\<lambda>(k, orig, pid) found. if orig = oid then Some k else found) (originals al) (map_option fst acc)"
  by (induction al arbitrary: acc) (auto simp: originals_def)

lemma resolve_originals: "resolve al oid = fold (\<lambda>(k, orig, pid) found. if orig = oid then Some k else found) (originals al) None"
  using find_component_fold [of oid al None] by (simp add: resolve_def find_component_def)

lemma edges_of_originals: "originals al = originals al' \<Longrightarrow> edges_of al rels = edges_of al' rels"
  by (simp add: edges_of_def resolve_originals)

lemma find_component_mem_aux:
  "fold (\<lambda>(k, comp) found. if original_product_id comp = oid then Some (k, comp) else found) al acc = Some x
     \<Longrightarrow> x \<in> set al \<or> acc = Some x"
  by (induction al arbitrary: acc) (fastforce split: if_splits)+

lemma find_component_mem: "find_component al oid = Some (k, n) \<Longrightarrow> (k, n) \<in> set al"
  using find_component_mem_aux [of oid al None "(k, n)"] by (simp add: find_component_def)

lemma resolve_key: "resolve al oid = Some k \<Longrightarrow> k \<in> set (map fst al)"
  by (auto simp: resolve_def dest!: find_component_mem intro: rev_image_eqI)

lemma in_set_map_filter: "y \<in> set (List.map_filter f xs) \<longleftrightarrow> (\<exists>x\<in>set xs. f x = Some y)"
  by (induction xs) (auto simp: map_filter_simps split: option.splits)

lemma edges_of_keys: "(p, c) \<in> set (edges_of al rels) \<Longrightarrow> p \<in> set (map fst al) \<and> c \<in> set (map fst al)"
proof -
  assume "(p, c) \<in> set (edges_of al rels)"
  then obtain rel :: relationship where
    "(case (resolve al (parent_product_id rel), resolve al (child_product_id rel)) of
        (Some pk, Some ck) \<Rightarrow> Some (pk, ck) | _ \<Rightarrow> None) = Some (p, c)"
    unfolding edges_of_def in_set_map_filter by blast
  then have "resolve al (parent_product_id rel) = Some p" "resolve al (child_product_id rel) = Some c"
    by (auto split: option.splits)
  then show ?thesis by (blast dest: resolve_key)
qed

lemma originals_map_entry:
  "(\<And>n. original_product_id (f n) = original_product_id n \<and> product_id (f n) = product_id n)
     \<Longrightarrow> originals (AList.map_entry k f al) = originals al"
  by (induction al) (auto simp: originals_def)

lemma originals_update_node:
  "(\<And>n. original_product_id (f n) = original_product_id n \<and> product_id (f n) = product_id n)
     \<Longrightarrow> originals (all_components (update_node r f st)) = originals (all_components st)"
  by (cases r) (simp_all add: update_node_def originals_map_entry)

lemma originals_add_child [simp]:
  "originals (all_components (add_child p c st)) = originals (all_components st)"
  by (simp add: add_child_def originals_update_node)

lemma originals_link_all [simp]:
  "originals (all_components (link_all rs st)) = originals (all_components st)"
  by (induction rs arbitrary: st) auto

lemma keys_ok_originals: "keys_ok st = list_all (\<lambda>(k, orig, pid). pid = k) (originals (all_components st))"
  by (simp add: keys_ok_def originals_def list_all_iff split_beta)

lemma keys_ok_add_child [simp]: "keys_ok (add_child p c st) = keys_ok st"
  by (simp add: keys_ok_originals)

lemma keys_ok_link_all [simp]: "keys_ok (link_all rs st) = keys_ok st"
  by (simp add: keys_ok_originals)

lemma link_relationship_resolved:
  assumes "keys_ok st"
  shows "link_relationship rel (st, P, C) =
     (case (resolve (all_components st) (parent_product_id rel),
            resolve (all_components st) (child_product_id rel)) of
        (Some pk, Some ck) \<Rightarrow> (add_child (Comp pk) (Comp ck) st, finsert pk P, finsert ck C)
      | _ \<Rightarrow> (st, P, C))"
proof -
  have pid: "\<And>oid k n. find_component (all_components st) oid = Some (k, n) \<Longrightarrow> product_id n = k"
    using assms by (auto simp: keys_ok_def list_all_iff dest!: find_component_mem)
  show ?thesis
    by (auto simp: link_relationship_def resolve_def split: option.splits dest: pid)
qed

lemma link_loop:
  assumes "keys_ok st"
  shows "fold link_relationship rels (st, P, C) =
     (link_all (map (\<lambda>(p, c). (Comp p, Comp c)) (edges_of (all_components st) rels)) st,
      P |\<union>| fset_of_list (map fst (edges_of (all_components st) rels)),
      C |\<union>| fset_of_list (map snd (edges_of (all_components st) rels)))"
  using assms
proof (induction rels arbitrary: st P C)
  case Nil
  then show ?case by (simp add: edges_of_def map_filter_simps)
next
  case (Cons rel rels)
  show ?case
  proof (cases "resolve (all_components st) (parent_product_id rel)")
    case None
    with Cons show ?thesis
      by (simp add: link_relationship_resolved edges_of_def map_filter_simps)
  next
    case (Some pk)
    note p = this
    show ?thesis
    proof (cases "resolve (all_components st) (child_product_id rel)")
      case None
      with p Cons show ?thesis
        by (simp add: link_relationship_resolved edges_of_def map_filter_simps)
    next
      case (Some ck)
      let ?st' = "add_child (Comp pk) (Comp ck) st"
      have step: "link_relationship rel (st, P, C) = (?st', finsert pk P, finsert ck C)"
        using p Some Cons.prems by (simp add: link_relationship_resolved)
      have same: "edges_of (all_components ?st') rels = edges_of (all_components st) rels"
        by (rule edges_of_originals) simp
      have hd: "edges_of (all_components st) (rel # rels) = (pk, ck) # edges_of (all_components st) rels"
        using p Some by (simp add: edges_of_def map_filter_simps)
      have "keys_ok ?st'" using Cons.prems by simp
      from Cons.IH [OF this, of "finsert pk P" "finsert ck C"] step same hd
      show ?thesis by simp
    qed
  qed
qed

lemma attach_to_virtual_root_link_all:
  "attach_to_virtual_root ks st =
     link_all (map (\<lambda>k. (Virtual, Comp k)) ks)
       (st\<lparr>virtual_root := Some virtual_node, assembly_tree := Some Virtual\<rparr>)"
  by (simp add: attach_to_virtual_root_def link_all_def fold_map comp_def)

lemma case_pair_list: "(case xs of [] \<Rightarrow> g | (k, r) # _ \<Rightarrow> f k) = (case map fst xs of [] \<Rightarrow> g | k # _ \<Rightarrow> f k)"
  by (cases xs) auto

lemma map_fst_filter_keys: "map fst (filter (\<lambda>(k, n). P k) al) = filter P (map fst al)"
  by (induction al) auto

lemma build_assembly_tree_eq:
  assumes "keys_ok st"
  shows "build_assembly_tree st =
     (let st1 = link_all (map (\<lambda>(p, c). (Comp p, Comp c)) (edges st)) st
      in case root_candidates st of
           k # _ \<Rightarrow> st1\<lparr>assembly_tree := Some (Comp k)\<rparr>
         | [] \<Rightarrow> attach_to_virtual_root (orphans st) st1)"
proof (cases "assembly_relationships st = []")
  case True
  then have "edges st = []" by (simp add: edges_def edges_of_def map_filter_simps)
  with True show ?thesis
    by (simp add: build_assembly_tree_def root_candidates_def orphans_def component_keys_def)
next
  case False
  let ?es = "edges st"
  let ?st1 = "link_all (map (\<lambda>(p, c). (Comp p, Comp c)) ?es) st"
  have loop: "fold link_relationship (assembly_relationships st) (st, {||}, {||})
      = (?st1, fset_of_list (map fst ?es), fset_of_list (map snd ?es))"
    using link_loop [OF assms, of "assembly_relationships st" "{||}" "{||}"] by (simp add: edges_def)
  have keys1: "map fst (all_components ?st1) = component_keys st"
    using keys_link_all [of "map (\<lambda>(p, c). (Comp p, Comp c)) ?es" st] by (simp add: component_keys_def)
  have cands: "map fst (filter (\<lambda>(comp_id, comp). comp_id |\<in>| fset_of_list (map fst ?es)
                    \<and> comp_id |\<notin>| fset_of_list (map snd ?es)) (all_components ?st1))
      = root_candidates st"
    by (simp add: map_fst_filter_keys keys1 root_candidates_def fset_of_list_elem fset_of_list.rep_eq)
  have orph: "map fst (filter (\<lambda>(comp_id, comp). comp_id |\<notin>| fset_of_list (map snd ?es)) (all_components ?st1))
      = orphans st"
    by (simp add: map_fst_filter_keys keys1 orphans_def fset_of_list_elem fset_of_list.rep_eq)
  have "build_assembly_tree st =
      (case map fst (filter (\<lambda>(comp_id, comp). comp_id |\<in>| fset_of_list (map fst ?es)
                    \<and> comp_id |\<notin>| fset_of_list (map snd ?es)) (all_components ?st1)) of
         [] \<Rightarrow> attach_to_virtual_root
                (map fst (filter (\<lambda>(comp_id, comp). comp_id |\<notin>| fset_of_list (map snd ?es))
                   (all_components ?st1))) ?st1
       | k # _ \<Rightarrow> ?st1\<lparr>assembly_tree := Some (Comp k)\<rparr>)"
    using False unfolding build_assembly_tree_def loop
    by (simp only: if_False Let_def prod.case case_pair_list)
  then show ?thesis
    unfolding cands orph by (simp only: Let_def)
qed

lemma node_of_tree_update [simp]: "node_of (st\<lparr>assembly_tree := t\<rparr>) r = node_of st r"
  by (cases r) (simp_all add: node_of_def)

lemma node_of_virtual_update [simp]:
  "node_of (st\<lparr>virtual_root := v\<rparr>) r = (case r of Virtual \<Rightarrow> v | Comp k \<Rightarrow> node_of st (Comp k))"
  by (simp add: node_of_def split: node_ref.splits)

lemma node_of_key: "(node_of st (Comp k) = None) = (k \<notin> set (component_keys st))"
  by (simp add: node_of_def component_keys_def map_of_eq_None_iff)

lemma unlinked_children: "unlinked st \<Longrightarrow> children_of st r = []"
proof (cases r)
  case Virtual
  assume "unlinked st"
  with Virtual show ?thesis by (simp add: unlinked_def children_of_def node_of_def)
next
  case (Comp k)
  assume u: "unlinked st"
  show ?thesis
  proof (cases "map_of (all_components st) k")
    case None
    with Comp show ?thesis by (simp add: children_of_def node_of_def)
  next
    case (Some n)
    then have "(k, n) \<in> set (all_components st)" by (rule map_of_SomeD)
    with u have "children n = []" by (auto simp: unlinked_def list_all_iff)
    with Comp Some show ?thesis by (simp add: children_of_def node_of_def)
  qed
qed

lemma unlinked_parent: "unlinked st \<Longrightarrow> parent_of st r = None"
proof (cases r)
  case Virtual
  assume "unlinked st"
  with Virtual show ?thesis by (simp add: unlinked_def parent_of_def node_of_def)
next
  case (Comp k)
  assume u: "unlinked st"
  show ?thesis
  proof (cases "map_of (all_components st) k")
    case None
    with Comp show ?thesis by (simp add: parent_of_def node_of_def)
  next
    case (Some n)
    then have "(k, n) \<in> set (all_components st)" by (rule map_of_SomeD)
    with u have "parent n = None" by (auto simp: unlinked_def list_all_iff)
    with Comp Some show ?thesis by (simp add: parent_of_def node_of_def)
  qed
qed

lemma edges_keys: "(p, c) \<in> set (edges st) \<Longrightarrow> p \<in> set (component_keys st) \<and> c \<in> set (component_keys st)"
  unfolding edges_def component_keys_def by (rule edges_of_keys)

lemma comp_edges_exist:
  "\<forall>(p, c)\<in>set (comp_edges st). node_of st p \<noteq> None \<and> node_of st c \<noteq> None"
proof -
  have "node_of st (Comp p) \<noteq> None \<and> node_of st (Comp c) \<noteq> None" if "(p, c) \<in> set (edges st)" for p c
    using edges_keys [OF that] by (simp add: node_of_key)
  then show ?thesis by (auto simp: comp_edges_def)
qed

lemma filter_comp_edges_fst:
  "filter (\<lambda>e. fst e = r) (comp_edges st) =
     (case r of Virtual \<Rightarrow> [] | Comp k \<Rightarrow> map (\<lambda>(p, c). (Comp p, Comp c)) (filter (\<lambda>e. fst e = k) (edges st)))"
  by (cases r) (auto simp: comp_edges_def filter_map comp_def split_beta filter_empty_conv)

lemma filter_comp_edges_snd:
  "filter (\<lambda>e. snd e = r) (comp_edges st) =
     (case r of Virtual \<Rightarrow> [] | Comp k \<Rightarrow> map (\<lambda>(p, c). (Comp p, Comp c)) (filter (\<lambda>e. snd e = k) (edges st)))"
  by (cases r) (auto simp: comp_edges_def filter_map comp_def split_beta filter_empty_conv)

lemma children_of_linked:
  assumes "unlinked st"
  shows "children_of (link_all (comp_edges st) st) (Comp k)
           = map Comp (map snd (filter (\<lambda>e. fst e = k) (edges st)))"
    and "children_of (link_all (comp_edges st) st) Virtual = []"
proof -
  have ex: "\<forall>(p, c)\<in>set (comp_edges st). node_of st p \<noteq> None"
    using comp_edges_exist [of st] by auto
  show "children_of (link_all (comp_edges st) st) (Comp k)
           = map Comp (map snd (filter (\<lambda>e. fst e = k) (edges st)))"
    by (simp add: children_of_link_all [OF ex] unlinked_children [OF assms] filter_comp_edges_fst
        comp_def split_beta)
  show "children_of (link_all (comp_edges st) st) Virtual = []"
    by (simp add: children_of_link_all [OF ex] unlinked_children [OF assms] filter_comp_edges_fst)
qed

lemma parent_of_linked:
  assumes "unlinked st"
  shows "parent_of (link_all (comp_edges st) st) (Comp k)
           = (if k \<in> set (map snd (edges st))
              then Some (Comp (fst (last (filter (\<lambda>e. snd e = k) (edges st))))) else None)"
proof -
  have ex: "\<forall>(p, c)\<in>set (comp_edges st). node_of st c \<noteq> None"
    using comp_edges_exist [of st] by auto
  have empty: "(filter (\<lambda>e. snd e = k) (edges st) = []) = (k \<notin> set (map snd (edges st)))"
    by (auto simp: filter_empty_conv)
  show ?thesis
  proof (cases "k \<in> set (map snd (edges st))")
    case False
    with empty show ?thesis
      by (simp add: parent_of_link_all [OF ex] unlinked_parent [OF assms] filter_comp_edges_snd)
  next
    case True
    with empty have ne: "filter (\<lambda>e. snd e = k) (edges st) \<noteq> []" by simp
    then show ?thesis
      using True
      by (simp add: parent_of_link_all [OF ex] filter_comp_edges_snd last_map split_beta)
  qed
qed

lemma build_assembly_tree_cases:
  assumes "keys_ok st"
  shows "build_assembly_tree st =
     (case root_candidates st of
        [] \<Rightarrow> link_all (map (\<lambda>k. (Virtual, Comp k)) (orphans st))
                ((link_all (comp_edges st) st)\<lparr>virtual_root := Some virtual_node, assembly_tree := Some Virtual\<rparr>)
      | k # _ \<Rightarrow> (link_all (comp_edges st) st)\<lparr>assembly_tree := Some (Comp k)\<rparr>)"
  by (simp add: build_assembly_tree_eq [OF assms] comp_edges_def attach_to_virtual_root_link_all Let_def
      split: list.splits)

lemma keys_originals: "component_keys st = map fst (originals (all_components st))"
  by (simp add: component_keys_def originals_def comp_def split_beta)

lemma originals_build [simp]:
  assumes "keys_ok st"
  shows "originals (all_components (build_assembly_tree st)) = originals (all_components st)"
  by (simp add: build_assembly_tree_cases [OF assms] split: list.splits)

lemma relationships_build [simp]:
  assumes "keys_ok st"
  shows "assembly_relationships (build_assembly_tree st) = assembly_relationships st"
  by (simp add: build_assembly_tree_cases [OF assms] split: list.splits)

lemma build_preserves:
  assumes "keys_ok st"
  shows "edges (build_assembly_tree st) = edges st"
    and "component_keys (build_assembly_tree st) = component_keys st"
    and "root_candidates (build_assembly_tree st) = root_candidates st"
    and "orphans (build_assembly_tree st) = orphans st"
    and "keys_ok (build_assembly_tree st)"
proof -
  show e: "edges (build_assembly_tree st) = edges st"
    unfolding edges_def relationships_build [OF assms]
    by (rule edges_of_originals) (rule originals_build [OF assms])
  show k: "component_keys (build_assembly_tree st) = component_keys st"
    by (simp add: keys_originals originals_build [OF assms])
  show "root_candidates (build_assembly_tree st) = root_candidates st"
    by (simp add: root_candidates_def e k)
  show "orphans (build_assembly_tree st) = orphans st"
    by (simp add: orphans_def e k)
  show "keys_ok (build_assembly_tree st)"
    using assms by (simp add: keys_ok_originals originals_build [OF assms])
qed

lemma children_of_fields [simp]:
  "children_of (st\<lparr>assembly_tree := t\<rparr>) r = children_of st r"
  "children_of (st\<lparr>virtual_root := v\<rparr>) (Comp k) = children_of st (Comp k)"
  "children_of (st\<lparr>virtual_root := Some n\<rparr>) Virtual = children n"
  by (simp_all add: children_of_def)

lemma parent_of_fields [simp]:
  "parent_of (st\<lparr>assembly_tree := t\<rparr>) r = parent_of st r"
  "parent_of (st\<lparr>virtual_root := v\<rparr>) (Comp k) = parent_of st (Comp k)"
  by (simp_all add: parent_of_def)

lemma annotations_of_fields [simp]:
  "annotations_of (st\<lparr>assembly_tree := t\<rparr>) r = annotations_of st r"
  "annotations_of (st\<lparr>virtual_root := v\<rparr>) (Comp k) = annotations_of st (Comp k)"
  by (simp_all add: annotations_of_def)

lemma orphans_keys: "k \<in> set (orphans st) \<Longrightarrow> k \<in> set (component_keys st)"
  by (simp add: orphans_def)

lemma virtual_links_exist:
  "\<forall>(p, c)\<in>set (map (\<lambda>k. (Virtual, Comp k)) (orphans st)).
     node_of ((link_all (comp_edges st) st)\<lparr>virtual_root := Some virtual_node, assembly_tree := t\<rparr>) p \<noteq> None
     \<and> node_of ((link_all (comp_edges st) st)\<lparr>virtual_root := Some virtual_node, assembly_tree := t\<rparr>) c \<noteq> None"
proof -
  have "node_of (link_all (comp_edges st) st) (Comp k) \<noteq> None" if "k \<in> set (orphans st)" for k
    using orphans_keys [OF that] by (simp add: node_of_key)
  then show ?thesis by (auto simp del: not_None_eq)
qed

lemma virtual_node_children [simp]: "children virtual_node = []"
  by (simp add: virtual_node_def new_node_def)

lemma filter_virtual_fst:
  "filter (\<lambda>e. fst e = r) (map (\<lambda>k. (Virtual, Comp k)) ks) =
     (case r of Virtual \<Rightarrow> map (\<lambda>k. (Virtual, Comp k)) ks | Comp k \<Rightarrow> [])"
  by (cases r) (auto simp: filter_map comp_def filter_empty_conv)

lemma filter_virtual_snd:
  "filter (\<lambda>e. snd e = Comp k) (map (\<lambda>k. (Virtual, Comp k)) ks) =
     map (\<lambda>k. (Virtual, Comp k)) (filter (\<lambda>k'. k' = k) ks)"
  by (simp add: filter_map comp_def)

lemma build_children:
  assumes "keys_ok st" "unlinked st"
  shows "children_of (build_assembly_tree st) (Comp k)
           = map Comp (map snd (filter (\<lambda>e. fst e = k) (edges st)))"
    and "children_of (build_assembly_tree st) Virtual
           = (if root_candidates st = [] then map Comp (orphans st) else [])"
proof -
  let ?st2 = "(link_all (comp_edges st) st)\<lparr>virtual_root := Some virtual_node, assembly_tree := Some Virtual\<rparr>"
  have ex: "\<forall>(p, c)\<in>set (map (\<lambda>k. (Virtual, Comp k)) (orphans st)). node_of ?st2 p \<noteq> None"
    using virtual_links_exist [of st "Some Virtual"] by auto
  show "children_of (build_assembly_tree st) (Comp k)
           = map Comp (map snd (filter (\<lambda>e. fst e = k) (edges st)))"
    by (simp add: build_assembly_tree_cases [OF assms(1)] children_of_link_all [OF ex]
        children_of_linked [OF assms(2)] filter_virtual_fst split: list.splits)
  show "children_of (build_assembly_tree st) Virtual
           = (if root_candidates st = [] then map Comp (orphans st) else [])"
    by (simp add: build_assembly_tree_cases [OF assms(1)] children_of_link_all [OF ex]
        children_of_linked [OF assms(2)] filter_virtual_fst comp_def
        split: list.splits)
qed

lemma build_parent:
  assumes "keys_ok st" "unlinked st"
  shows "parent_of (build_assembly_tree st) (Comp k)
           = (if k \<in> set (map snd (edges st))
              then Some (Comp (fst (last (filter (\<lambda>e. snd e = k) (edges st)))))
              else if root_candidates st = [] \<and> k \<in> set (component_keys st) then Some Virtual
              else None)"
proof -
  let ?st2 = "(link_all (comp_edges st) st)\<lparr>virtual_root := Some virtual_node, assembly_tree := Some Virtual\<rparr>"
  have ex: "\<forall>(p, c)\<in>set (map (\<lambda>k. (Virtual, Comp k)) (orphans st)). node_of ?st2 c \<noteq> None"
    using virtual_links_exist [of st "Some Virtual"] by auto
  have orph: "(filter (\<lambda>k'. k' = k) (orphans st) = []) = (k \<notin> set (orphans st))"
    by (auto simp: filter_empty_conv)
  have mem: "k \<in> set (orphans st) \<longleftrightarrow> k \<notin> set (map snd (edges st)) \<and> k \<in> set (component_keys st)"
    by (auto simp: orphans_def)
  show ?thesis
  proof (cases "root_candidates st")
    case (Cons r rs)
    then show ?thesis
      by (simp add: build_assembly_tree_cases [OF assms(1)] parent_of_linked [OF assms(2)])
  next
    case Nil
    show ?thesis
    proof (cases "k \<in> set (orphans st)")
      case True
      then have "filter (\<lambda>k'. k' = k) (orphans st) \<noteq> []" using orph by simp
      then have "last (map (\<lambda>k. (Virtual, Comp k)) (filter (\<lambda>k'. k' = k) (orphans st))) 
           = (Virtual, Comp (last (filter (\<lambda>k'. k' = k) (orphans st))))"
        by (simp add: last_map)
      with True Nil mem orph show ?thesis
        by (simp add: build_assembly_tree_cases [OF assms(1)] parent_of_link_all [OF ex]
            filter_virtual_snd)
    next
      case False
      with Nil mem orph show ?thesis
        by (auto simp add: build_assembly_tree_cases [OF assms(1)] parent_of_link_all [OF ex]
            filter_virtual_snd parent_of_linked [OF assms(2)])
    qed
  qed
qed

lemma build_tree:
  assumes "keys_ok st"
  shows "assembly_tree (build_assembly_tree st)
           = Some (case root_candidates st of [] \<Rightarrow> Virtual | k # _ \<Rightarrow> Comp k)"
    and "(node_of (build_assembly_tree st) Virtual = None) = (node_of st Virtual = None \<and> root_candidates st \<noteq> [])"
  by (simp_all add: build_assembly_tree_cases [OF assms] split: list.splits)

lemma build_annotations:
  assumes "keys_ok st"
  shows "annotations_of (build_assembly_tree st) (Comp k) = annotations_of st (Comp k)"
  by (simp add: build_assembly_tree_cases [OF assms] split: list.splits)

lemma list_all_update:
  "list_all P al \<Longrightarrow> P (k, v) \<Longrightarrow> list_all P (AList.update k v al)"
  by (induction al) auto

lemma list_all_map_entry:
  "list_all P al \<Longrightarrow> (\<And>n. P (k, n) \<Longrightarrow> P (k, f n)) \<Longrightarrow> list_all P (AList.map_entry k f al)"
  by (induction al) auto

lemma pre_build_new_parser: "pre_build ((new_parser dir main)\<lparr>enable_annotation_fallback := fb\<rparr>)"
  by (simp add: pre_build_def keys_ok_def unlinked_def component_keys_def new_parser_def)

lemma create_component_fields [simp]:
  "assembly_tree (create_component mp pa e st) = assembly_tree st"
  "virtual_root (create_component mp pa e st) = virtual_root st"
  "assembly_relationships (create_component mp pa e st) = assembly_relationships st"
  "main_assembly_file (create_component mp pa e st) = main_assembly_file st"
  "input_directory (create_component mp pa e st) = input_directory st"
  "enable_annotation_fallback (create_component mp pa e st) = enable_annotation_fallback st"
  by (simp_all add: create_component_def Let_def split: prod.splits)

lemma pre_build_create_component:
  assumes "pre_build st"
  shows "pre_build (create_component mp pa e st)"
proof -
  obtain index pid info where e: "e = (index, pid, info)" by (cases e)
  define ty where "ty = (if list_ex (\<lambda>rel. parent_product_id rel = pid) (assembly_relationships st)
       then ''ASSEMBLY''
       else identify_component_type info (get_default pa pid [])
              (list_ex (\<lambda>rel. parent_product_id rel = pid) (assembly_relationships st)))"
  define component where "component = (new_node (prod_name info) (''P'' @ pad5 (str_of_nat index)) mp ty)
       \<lparr>original_product_id := pid, annotations := get_default pa pid []\<rparr>"
  have comps: "all_components (create_component mp pa e st)
      = AList.update (product_id component) component (all_components st)"
    by (simp add: create_component_def e Let_def component_def ty_def)
  have c: "children component = []" "parent component = None"
    by (simp_all add: component_def new_node_def)
  from assms have "list_all (\<lambda>(k, n). product_id n = k) (AList.update (product_id component) component (all_components st))"
    by (intro list_all_update) (simp_all add: pre_build_def keys_ok_def)
  moreover from assms c have "list_all (\<lambda>(k, n). children n = [] \<and> parent n = None)
       (AList.update (product_id component) component (all_components st))"
    by (intro list_all_update) (simp_all add: pre_build_def unlinked_def)
  moreover from assms have "distinct (map fst (AList.update (product_id component) component (all_components st)))"
    by (simp add: pre_build_def component_keys_def distinct_update)
  ultimately show ?thesis
    using assms by (simp add: pre_build_def keys_ok_def unlinked_def component_keys_def comps)
qed

lemma pre_build_fold_create:
  "pre_build st \<Longrightarrow> pre_build (fold (create_component mp pa) es st)"
  by (induction es arbitrary: st) (simp_all add: pre_build_create_component)

lemma fold_create_fields [simp]:
  "assembly_relationships (fold (create_component mp pa) es st) = assembly_relationships st"
  "main_assembly_file (fold (create_component mp pa) es st) = main_assembly_file st"
  "input_directory (fold (create_component mp pa) es st) = input_directory st"
  "enable_annotation_fallback (fold (create_component mp pa) es st) = enable_annotation_fallback st"
  by (induction es arbitrary: st; simp)+

lemma pre_build_irrelevant [simp]:
  "pre_build (st\<lparr>processed_files := x\<rparr>) = pre_build st"
  "pre_build (st\<lparr>component_name_index := y\<rparr>) = pre_build st"
  "pre_build (st\<lparr>assembly_relationships := z\<rparr>) = pre_build st"
  "pre_build (st\<lparr>parser_annotation_files := w\<rparr>) = pre_build st"
  by (simp_all add: pre_build_def keys_ok_def unlinked_def component_keys_def)

lemma pre_build_register:
  "pre_build st \<Longrightarrow> pre_build (register_components mp products pa st)"
  by (simp add: register_components_def Let_def pre_build_fold_create)

lemma register_fields [simp]:
  "assembly_relationships (register_components mp products pa st) = assembly_relationships st"
  "main_assembly_file (register_components mp products pa st) = main_assembly_file st"
  "input_directory (register_components mp products pa st) = input_directory st"
  "enable_annotation_fallback (register_components mp products pa st) = enable_annotation_fallback st"
  by (simp_all add: register_components_def Let_def)

lemma pre_build_process_main:
  "pre_build st \<Longrightarrow> pre_build (snd (process_main_assembly fs mp st))"
  by (simp add: process_main_assembly_def Let_def pre_build_register)

lemma process_main_fields [simp]:
  "main_assembly_file (snd (process_main_assembly fs mp st)) = main_assembly_file st"
  "input_directory (snd (process_main_assembly fs mp st)) = input_directory st"
  "enable_annotation_fallback (snd (process_main_assembly fs mp st)) = enable_annotation_fallback st"
  by (simp_all add: process_main_assembly_def Let_def)

lemma pre_build_update_node:
  assumes "pre_build st"
    and "\<And>n. original_product_id (f n) = original_product_id n \<and> product_id (f n) = product_id n
           \<and> children (f n) = children n \<and> parent (f n) = parent n"
  shows "pre_build (update_node r f st)"
proof (cases r)
  case Virtual
  with assms show ?thesis
    by (simp add: update_node_def pre_build_def keys_ok_def unlinked_def component_keys_def)
next
  case (Comp k)
  from assms have "list_all (\<lambda>(k, n). product_id n = k) (AList.map_entry k f (all_components st))"
    by (intro list_all_map_entry) (simp_all add: pre_build_def keys_ok_def)
  moreover from assms have "list_all (\<lambda>(k, n). children n = [] \<and> parent n = None)
      (AList.map_entry k f (all_components st))"
    by (intro list_all_map_entry) (simp_all add: pre_build_def unlinked_def)
  ultimately show ?thesis
    using assms(1) Comp
    by (simp add: update_node_def pre_build_def keys_ok_def unlinked_def component_keys_def
        map_fst_map_entry)
qed

lemma pre_build_supplement_file:
  "pre_build st \<Longrightarrow> pre_build (supplement_file fs filename st)"
  by (simp add: supplement_file_def Let_def pre_build_update_node split: option.splits)

lemma pre_build_supplement:
  "pre_build st \<Longrightarrow> pre_build (supplement_annotations_from_files fs files st)"
  unfolding supplement_annotations_from_files_def
  by (induction files arbitrary: st) (simp_all add: pre_build_supplement_file)

lemma parse_batch_success:
  assumes "parse_batch files fs st0 = (True, st)"
  shows "\<exists>m st1. main_assembly_file st0 = Some m \<and> m \<noteq> [] \<and> files \<noteq> []
           \<and> fs (path_join (input_directory st0) m) \<noteq> None
           \<and> process_main_assembly fs (path_join (input_directory st0) m) st0 = (True, st1)
           \<and> st = build_assembly_tree (supplement_annotations_from_files fs files st1)"
  using assms
  by (auto simp: parse_batch_def Let_def split: if_splits option.splits prod.splits bool.splits)

lemma parse_batch_pre_build:
  assumes "parse_batch files fs st0 = (True, st)" "pre_build st0"
  shows "\<exists>s. pre_build s \<and> st = build_assembly_tree s"
proof -
  from parse_batch_success [OF assms(1)] obtain m st1 where
    pm: "process_main_assembly fs (path_join (input_directory st0) m) st0 = (True, st1)"
    and st: "st = build_assembly_tree (supplement_annotations_from_files fs files st1)"
    by blast
  from pre_build_process_main [OF assms(2), of fs "path_join (input_directory st0) m"] pm
  have "pre_build st1" by simp
  then have "pre_build (supplement_annotations_from_files fs files st1)"
    by (rule pre_build_supplement)
  with st show ?thesis by blast
qed

lemma child_rel_build:
  assumes "keys_ok s" "unlinked s"
  shows "(p, c) \<in> child_rel (build_assembly_tree s) \<longleftrightarrow>
           (\<exists>a b. p = Comp a \<and> c = Comp b \<and> (a, b) \<in> set (edges s))
           \<or> (p = Virtual \<and> root_candidates s = [] \<and> (\<exists>k\<in>set (orphans s). c = Comp k))"
proof (cases p)
  case Virtual
  then show ?thesis
    by (auto simp: child_rel_def build_children [OF assms])
next
  case (Comp a)
  then show ?thesis
    by (force simp: child_rel_def build_children [OF assms])
qed

lemma tree_ok_flat:
  assumes pb: "pre_build s" and e: "edges s = []"
  shows "tree_ok (build_assembly_tree s)"
proof -
  let ?st = "build_assembly_tree s"
  from pb have k: "keys_ok s" and u: "unlinked s" and d: "distinct (component_keys s)"
    by (simp_all add: pre_build_def)
  have c: "root_candidates s = []" and o: "orphans s = component_keys s"
    using e by (simp_all add: root_candidates_def orphans_def)
  have ch: "children_of ?st Virtual = map Comp (component_keys s)" "\<And>a. children_of ?st (Comp a) = []"
    using e c o by (simp_all add: build_children [OF k u])
  have rel: "\<And>p x. (p, x) \<in> child_rel ?st \<longleftrightarrow> p = Virtual \<and> (\<exists>a\<in>set (component_keys s). x = Comp a)"
    using e c o by (auto simp: child_rel_build [OF k u])
  have "acyclic (child_rel ?st)"
  proof (rule acyclicI_order [where f = "\<lambda>r. case r of Virtual \<Rightarrow> (1::nat) | Comp _ \<Rightarrow> 0"])
    fix a b assume "(a, b) \<in> child_rel ?st"
    then show "(case b of Virtual \<Rightarrow> (1::nat) | Comp _ \<Rightarrow> 0) < (case a of Virtual \<Rightarrow> 1 | Comp _ \<Rightarrow> 0)"
      by (auto simp: rel)
  qed
  moreover have "\<forall>a\<in>set (component_keys ?st). (Virtual, Comp a) \<in> (child_rel ?st)\<^sup>*"
    by (auto simp: build_preserves(2) [OF k] rel intro!: r_into_rtrancl)
  moreover have "\<forall>p. distinct (children_of ?st p)"
  proof
    fix p show "distinct (children_of ?st p)"
      using d by (cases p) (simp_all add: ch distinct_map inj_on_def)
  qed
  moreover have "\<forall>p p' x. x \<in> set (children_of ?st p) \<and> x \<in> set (children_of ?st p') \<longrightarrow> p = p'"
  proof (intro allI impI)
    fix p p' x assume "x \<in> set (children_of ?st p) \<and> x \<in> set (children_of ?st p')"
    then have "(p, x) \<in> child_rel ?st" "(p', x) \<in> child_rel ?st" by (simp_all add: child_rel_def)
    then show "p = p'" by (simp add: rel)
  qed
  moreover have "\<forall>p. Virtual \<notin> set (children_of ?st p)"
  proof
    fix p show "Virtual \<notin> set (children_of ?st p)"
      by (cases p) (auto simp: ch)
  qed
  moreover have "assembly_tree ?st = Some Virtual" "node_of ?st Virtual \<noteq> None"
    using c by (simp_all add: build_tree [OF k])
  ultimately show ?thesis
    unfolding tree_ok_def by blast
qed

lemma tree_ok_forest:
  assumes pb: "pre_build s" and ne: "edges s \<noteq> []"
    and dist: "distinct (map snd (edges s))" and acyc: "acyclic (set (edges s))"
    and one: "orphans s = [r]"
  shows "tree_ok (build_assembly_tree s)"
proof -
  let ?st = "build_assembly_tree s"
  let ?E = "set (edges s)"
  from pb have k: "keys_ok s" and u: "unlinked s" and d: "distinct (component_keys s)"
    by (simp_all add: pre_build_def)
  have r: "r \<in> set (component_keys s)" "r \<notin> snd ` ?E"
    using one by (auto simp: orphans_def filter_eq_Cons_iff)
  have only: "x = r" if "x \<in> set (component_keys s)" "x \<notin> snd ` ?E" for x
  proof -
    from that have "x \<in> set (orphans s)" by (simp add: orphans_def)
    with one show ?thesis by simp
  qed
  have wf: "wf ?E" using acyc by (intro finite_acyclic_wf) simp_all
  have reach: "x \<in> set (component_keys s) \<longrightarrow> (r, x) \<in> ?E\<^sup>*" for x
  proof (induction x rule: wf_induct_rule [OF wf])
    case (1 x)
    show ?case
    proof
      assume x: "x \<in> set (component_keys s)"
      show "(r, x) \<in> ?E\<^sup>*"
      proof (cases "x \<in> snd ` ?E")
        case False
        with x only show ?thesis by simp
      next
        case True
        then obtain p where p: "(p, x) \<in> ?E" by auto
        with edges_keys have "p \<in> set (component_keys s)" by blast
        with 1 p have "(r, p) \<in> ?E\<^sup>*" by blast
        with p show ?thesis by (blast intro: rtrancl_into_rtrancl)
      qed
    qed
  qed
  have r_parent: "r \<in> fst ` ?E"
  proof -
    from ne obtain p c where pc: "(p, c) \<in> ?E" by (cases "edges s") auto
    with edges_keys have "c \<in> set (component_keys s)" by blast
    with reach have rc: "(r, c) \<in> ?E\<^sup>*" by blast
    from pc r(2) have "c \<noteq> r" by force
    with rc have "(r, c) \<in> ?E\<^sup>+" by (simp add: rtrancl_eq_or_trancl)
    then obtain z where "(r, z) \<in> ?E" by (blast dest: tranclD)
    then show ?thesis by force
  qed
  have cands: "root_candidates s = [r]"
  proof -
    have "root_candidates s = filter (\<lambda>k. k \<in> set (map fst (edges s))) (orphans s)"
      by (auto simp: root_candidates_def orphans_def intro: filter_cong)
    with one r_parent show ?thesis by simp
  qed
  have rel: "\<And>p x. (p, x) \<in> child_rel ?st \<longleftrightarrow> (\<exists>a b. p = Comp a \<and> x = Comp b \<and> (a, b) \<in> ?E)"
    using cands by (simp add: child_rel_build [OF k u])
  have img: "child_rel ?st = map_prod Comp Comp ` ?E"
  proof (rule set_eqI)
    fix e :: "node_ref \<times> node_ref"
    obtain p x where e: "e = (p, x)" by (cases e)
    show "e \<in> child_rel ?st \<longleftrightarrow> e \<in> map_prod Comp Comp ` ?E"
      unfolding e rel by (force simp: image_iff)
  qed
  have "wf (map_prod Comp Comp ` ?E)"
    using wf by (rule wf_map_prod_image) (simp add: inj_on_def)
  then have "acyclic (child_rel ?st)"
    unfolding img by (rule wf_acyclic)
  moreover have "\<forall>a\<in>set (component_keys ?st). (Comp r, Comp a) \<in> (child_rel ?st)\<^sup>*"
  proof
    fix a assume "a \<in> set (component_keys ?st)"
    then have "(r, a) \<in> ?E\<^sup>*" using reach by (simp add: build_preserves(2) [OF k])
    then show "(Comp r, Comp a) \<in> (child_rel ?st)\<^sup>*"
    proof (induction rule: rtrancl_induct)
      case base
      show ?case by simp
    next
      case (step y z)
      then have "(Comp y, Comp z) \<in> child_rel ?st" by (simp add: rel)
      with step show ?case by (blast intro: rtrancl_into_rtrancl)
    qed
  qed
  moreover have "\<forall>p. distinct (children_of ?st p)"
  proof
    fix p show "distinct (children_of ?st p)"
    proof (cases p)
      case Virtual
      with cands show ?thesis by (simp add: build_children [OF k u])
    next
      case (Comp a)
      have "distinct (map snd (filter (\<lambda>e. fst e = a) (edges s)))"
        using dist by (rule distinct_map_filter)
      with Comp show ?thesis
        by (simp add: build_children [OF k u] distinct_map inj_on_def)
    qed
  qed
  moreover have "\<forall>p p' x. x \<in> set (children_of ?st p) \<and> x \<in> set (children_of ?st p') \<longrightarrow> p = p'"
  proof (intro allI impI)
    fix p p' x assume "x \<in> set (children_of ?st p) \<and> x \<in> set (children_of ?st p')"
    then have "(p, x) \<in> child_rel ?st" "(p', x) \<in> child_rel ?st" by (simp_all add: child_rel_def)
    then obtain a b a' where ab: "p = Comp a" "p' = Comp a'" "(a, b) \<in> ?E" "(a', b) \<in> ?E"
      unfolding rel by auto
    from dist have "inj_on snd ?E" by (simp add: distinct_map)
    from inj_onD [OF this, of "(a, b)" "(a', b)"] ab show "p = p'" by simp
  qed
  moreover have "\<forall>p. Comp r \<notin> set (children_of ?st p)"
  proof
    fix p show "Comp r \<notin> set (children_of ?st p)"
    proof
      assume "Comp r \<in> set (children_of ?st p)"
      then have "(p, Comp r) \<in> child_rel ?st" by (simp add: child_rel_def)
      then obtain a where "(a, r) \<in> ?E" unfolding rel by auto
      with r(2) show False by force
    qed
  qed
  moreover have "assembly_tree ?st = Some (Comp r)"
    using cands by (simp add: build_tree [OF k])
  moreover have "node_of ?st (Comp r) \<noteq> None"
    using r(1) by (simp add: node_of_key build_preserves(2) [OF k])
  ultimately show ?thesis
    unfolding tree_ok_def by blast
qed

lemma merge_annotations_step:
  "merge_annotations ex (a # as) = merge_annotations (if a \<in> set ex then ex else ex @ [a]) as"
proof -
  have "list_ex (\<lambda>e. ann_name e = ann_name a \<and> ann_description e = ann_description a) ex \<longleftrightarrow> a \<in> set ex"
  proof
    assume "list_ex (\<lambda>e. ann_name e = ann_name a \<and> ann_description e = ann_description a) ex"
    then obtain e where "e \<in> set ex" "ann_name e = ann_name a" "ann_description e = ann_description a"
      by (auto simp: list_ex_iff)
    moreover from this have "e = a" by (simp add: annotation.expand)
    ultimately show "a \<in> set ex" by simp
  next
    assume "a \<in> set ex"
    then show "list_ex (\<lambda>e. ann_name e = ann_name a \<and> ann_description e = ann_description a) ex"
      by (auto simp: list_ex_iff)
  qed
  then show ?thesis by simp
qed

lemma merge_annotations_prefix: "\<exists>new. merge_annotations ex cs = ex @ new"
proof (induction cs arbitrary: ex)
  case Nil
  show ?case by simp
next
  case (Cons a cs)
  from Cons [of "if a \<in> set ex then ex else ex @ [a]"] show ?case
    unfolding merge_annotations_step by (auto split: if_splits)
qed

lemma merge_annotations_count:
  "count_list (merge_annotations ex cs) p =
     (if p \<in> set ex then count_list ex p else if p \<in> set cs then 1 else 0)"
proof (induction cs arbitrary: ex)
  case Nil
  show ?case by (simp add: count_list_0_iff)
next
  case (Cons a cs)
  show ?case
    unfolding merge_annotations_step Cons
    by (auto simp: count_list_0_iff)
qed

lemma merge_annotations_set: "set (merge_annotations ex cs) = set ex \<union> set cs"
proof (induction cs arbitrary: ex)
  case Nil
  show ?case by simp
next
  case (Cons a cs)
  show ?case unfolding merge_annotations_step Cons by auto
qed

lemma merge_annotations_absorb: "set cs \<subseteq> set ex \<Longrightarrow> merge_annotations ex cs = ex"
  by (induction cs arbitrary: ex) (simp_all add: merge_annotations_step del: merge_annotations.simps(2))

lemma merge_annotations_idem: "merge_annotations (merge_annotations ex cs) cs = merge_annotations ex cs"
  by (rule merge_annotations_absorb) (simp add: merge_annotations_set)

lemma merge_annotations_distinct: "distinct ex \<Longrightarrow> distinct (merge_annotations ex cs)"
  by (induction cs arbitrary: ex) (simp_all add: merge_annotations_step del: merge_annotations.simps(2))

lemma map_entry_twice: "AList.map_entry k g (AList.map_entry k h al) = AList.map_entry k (g \<circ> h) al"
  by (induction al) auto

lemma map_entry_cong_fun: "(\<And>n. g n = h n) \<Longrightarrow> AList.map_entry k g al = AList.map_entry k h al"
  by (induction al) auto

lemma update_node_twice:
  assumes "\<And>n. g (h n) = h n"
  shows "all_components (update_node r g (update_node r h st)) = all_components (update_node r h st)"
proof (cases r)
  case Virtual
  then show ?thesis by (simp add: update_node_def)
next
  case (Comp k)
  have "AList.map_entry k (g \<circ> h) (all_components st) = AList.map_entry k h (all_components st)"
    by (rule map_entry_cong_fun) (simp add: assms)
  with Comp show ?thesis by (simp add: update_node_def map_entry_twice)
qed

lemma merge_into_idem: "merge_into f cs (merge_into f cs n) = merge_into f cs n"
  by (simp add: merge_into_def merge_annotations_idem)

lemma supplement_file_eq:
  "supplement_file fs filename st =
     (if is_main_path st filename then st
      else
        (case all_file_annotations_of (enable_annotation_fallback st) (load_file_content fs filename) of
           None \<Rightarrow> st
         | Some cands \<Rightarrow>
             (case matching_component_of st filename of
                None \<Rightarrow> st\<lparr>parser_annotation_files := parser_annotation_files st @ [filename]\<rparr>
              | Some r \<Rightarrow>
                  (update_node r (merge_into filename cands) st)
                    \<lparr>parser_annotation_files := parser_annotation_files st @ [filename]\<rparr>)))"
proof -
  have m: "(\<lambda>n. n\<lparr>annotations := merge_annotations (annotations n) cands,
              annotation_files := (if filename \<notin> set (annotation_files n)
                                   then annotation_files n @ [filename] else annotation_files n)\<rparr>)
        = merge_into filename cands" for cands
    by (rule ext) (simp add: merge_into_def)
  show ?thesis
    unfolding supplement_file_def is_main_path_def Let_def m
    by (simp split: option.splits)
qed

lemma matching_component_of_cong:
  "component_name_index st' = component_name_index st \<Longrightarrow> assembly_tree st' = assembly_tree st
     \<Longrightarrow> matching_component_of st' f = matching_component_of st f"
  by (simp add: matching_component_of_def split: option.splits)

lemma supplement_file_fields [simp]:
  "component_name_index (supplement_file fs f st) = component_name_index st"
  "assembly_tree (supplement_file fs f st) = assembly_tree st"
  "assembly_relationships (supplement_file fs f st) = assembly_relationships st"
  "main_assembly_file (supplement_file fs f st) = main_assembly_file st"
  "input_directory (supplement_file fs f st) = input_directory st"
  "enable_annotation_fallback (supplement_file fs f st) = enable_annotation_fallback st"
  "component_keys (supplement_file fs f st) = component_keys st"
  by (simp_all add: supplement_file_eq component_keys_def [of "_\<lparr>parser_annotation_files := _\<rparr>"]
      split: option.splits, simp_all add: component_keys_def [symmetric])

lemma is_main_path_supplement_file [simp]:
  "is_main_path (supplement_file fs f st) g = is_main_path st g"
  by (simp add: is_main_path_def split: option.splits)

lemma matching_supplement_file [simp]:
  "matching_component_of (supplement_file fs f st) g = matching_component_of st g"
  by (rule matching_component_of_cong) simp_all

lemma supplement_file_twice:
  "all_components (supplement_file fs f (supplement_file fs f st)) = all_components (supplement_file fs f st)"
proof -
  let ?st1 = "supplement_file fs f st"
  show ?thesis
  proof (cases "is_main_path st f")
    case True
    then have "?st1 = st" by (simp add: supplement_file_eq)
    then show ?thesis by simp
  next
    case False
    note nm = this
    show ?thesis
    proof (cases "all_file_annotations_of (enable_annotation_fallback st) (load_file_content fs f)")
      case None
      with nm have "?st1 = st" by (simp add: supplement_file_eq)
      then show ?thesis by simp
    next
      case (Some cands)
      show ?thesis
      proof (cases "matching_component_of st f")
        case None
        with nm Some have 1: "all_components ?st1 = all_components st"
          by (simp add: supplement_file_eq)
        have "all_components (supplement_file fs f ?st1) = all_components ?st1"
          using nm Some None by (subst supplement_file_eq) simp
        then show ?thesis .
      next
        case (Some r)
        note r = this
        have 1: "all_components ?st1 = all_components (update_node r (merge_into f cands) st)"
          using nm \<open>all_file_annotations_of _ _ = Some cands\<close> r by (simp add: supplement_file_eq)
        have "all_components (supplement_file fs f ?st1)
            = all_components (update_node r (merge_into f cands) ?st1)"
          using nm \<open>all_file_annotations_of _ _ = Some cands\<close> r by (subst supplement_file_eq) simp
        also have "\<dots> = all_components (update_node r (merge_into f cands) (update_node r (merge_into f cands) st))"
          using 1 by (cases r) (simp_all add: update_node_def)
        also have "\<dots> = all_components (update_node r (merge_into f cands) st)"
          by (rule update_node_twice) (rule merge_into_idem)
        finally show ?thesis using 1 by simp
      qed
    qed
  qed
qed

lemma annotations_of_update_node:
  "annotations_of (update_node r f st) r' =
     (if r' = r then (case node_of st r of None \<Rightarrow> [] | Some n \<Rightarrow> annotations (f n)) else annotations_of st r')"
  by (auto simp: annotations_of_def node_of_update_node split: option.splits)

lemma annotations_of_irrelevant [simp]:
  "annotations_of (st\<lparr>parser_annotation_files := x\<rparr>) r = annotations_of st r"
  by (cases r) (simp_all add: annotations_of_def node_of_def)

lemma node_of_irrelevant [simp]:
  "node_of (st\<lparr>parser_annotation_files := x\<rparr>) r = node_of st r"
  by (cases r) (simp_all add: node_of_def)

lemma annotations_of_supplement_file:
  assumes "\<not> is_main_path st f"
    and "all_file_annotations_of (enable_annotation_fallback st) (load_file_content fs f) = Some cands"
    and "matching_component_of st f = Some r" and "node_of st r \<noteq> None"
  shows "annotations_of (supplement_file fs f st) r = merge_annotations (annotations_of st r) cands"
  using assms
  by (auto simp: supplement_file_eq annotations_of_def node_of_update_node merge_into_def)

lemma has_node_supplement_file [simp]:
  "(node_of (supplement_file fs f st) r = None) = (node_of st r = None)"
  by (auto simp: supplement_file_eq node_of_update_node split: option.splits)

lemma pre_build_parser_with: "pre_build (parser_with dir main fb)"
  unfolding parser_with_def by (rule pre_build_new_parser)

lemma parser_with_fields [simp]:
  "main_assembly_file (parser_with dir main fb) = main"
  "input_directory (parser_with dir main fb) = dir"
  "enable_annotation_fallback (parser_with dir main fb) = fb"
  "assembly_tree (parser_with dir main fb) = None"
  "virtual_root (parser_with dir main fb) = None"
  "all_components (parser_with dir main fb) = []"
  "assembly_relationships (parser_with dir main fb) = []"
  by (simp_all add: parser_with_def new_parser_def)

lemma supplement_fields [simp]:
  "component_name_index (supplement_annotations_from_files fs files st) = component_name_index st"
  "assembly_tree (supplement_annotations_from_files fs files st) = assembly_tree st"
  "assembly_relationships (supplement_annotations_from_files fs files st) = assembly_relationships st"
  "component_keys (supplement_annotations_from_files fs files st) = component_keys st"
  unfolding supplement_annotations_from_files_def
  by (induction files arbitrary: st; simp)+

lemma run_pre_build:
  assumes "parse_batch files fs (parser_with dir main fb) = (True, st)"
  shows "\<exists>s. pre_build s \<and> st = build_assembly_tree s"
  using parse_batch_pre_build [OF assms pre_build_parser_with] .

text \<open>
  Claim C1, as amended. For every run of \<open>parse_batch\<close> that succeeds and whose resolved
  edges name no component as a child twice, contain no cycle and, if there are any, leave
  exactly one component that is nobody's child, the finished tree has one root, which is
  nobody's child, no node is its own ancestor, every component is reachable from the root,
  and no node stands twice in a \<open>children\<close> list or in the lists of two parents.
\<close>

theorem assembly_tree_well_formed:
  assumes "parse_batch files fs (parser_with dir main fb) = (True, st)"
    and "distinct (map snd (edges st))" and "acyclic (set (edges st))"
    and "edges st \<noteq> [] \<longrightarrow> (\<exists>r. orphans st = [r])"
  shows "tree_ok st"
proof -
  from run_pre_build [OF assms(1)] obtain s where s: "pre_build s" "st = build_assembly_tree s"
    by blast
  then have k: "keys_ok s" by (simp add: pre_build_def)
  have e: "edges st = edges s" and o: "orphans st = orphans s"
    using s(2) by (simp_all add: build_preserves [OF k])
  show ?thesis
  proof (cases "edges s = []")
    case True
    with s show ?thesis by (simp add: tree_ok_flat)
  next
    case False
    with assms(4) e o obtain r where "orphans s = [r]" by auto
    with False s assms(2,3) e show ?thesis by (simp add: tree_ok_forest)
  qed
qed

text \<open>
  Claim C2, as amended. For every run that succeeds and whose resolved edge list holds, in
  document order, an edge from \<open>a\<close> to \<open>b\<close> and later an edge from \<open>c\<close> to \<open>b\<close> with
  \<open>a\<close> and \<open>c\<close> different, after tree building \<open>b\<close> is in the \<open>children\<close> lists of both
  \<open>a\<close> and \<open>c\<close>, and the \<open>parent\<close> of \<open>b\<close> is the parent of the last edge that names
  \<open>b\<close> as child: it is \<open>c\<close> when no later edge does.
\<close>

theorem last_parent_wins:
  assumes "parse_batch files fs (parser_with dir main fb) = (True, st)"
    and "edges st = es1 @ [(a, b)] @ es2 @ [(c, b)] @ es3" and "a \<noteq> c"
  shows "Comp b \<in> set (children_of st (Comp a)) \<and> Comp b \<in> set (children_of st (Comp c))
     \<and> parent_of st (Comp b) = Some (Comp (fst (last (filter (\<lambda>e. snd e = b) (edges st)))))
     \<and> (b \<notin> snd ` set es3 \<longrightarrow> parent_of st (Comp b) = Some (Comp c))"
proof -
  from run_pre_build [OF assms(1)] obtain s where s: "pre_build s" "st = build_assembly_tree s"
    by blast
  then have k: "keys_ok s" and u: "unlinked s" by (simp_all add: pre_build_def)
  have e: "edges s = es1 @ [(a, b)] @ es2 @ [(c, b)] @ es3"
    using assms(2) s(2) by (simp add: build_preserves [OF k])
  have 1: "Comp b \<in> set (children_of st (Comp a))" "Comp b \<in> set (children_of st (Comp c))"
    unfolding s(2) build_children [OF k u] e by force+
  have 2: "parent_of st (Comp b) = Some (Comp (fst (last (filter (\<lambda>e. snd e = b) (edges s)))))"
    unfolding s(2) build_parent [OF k u] e by simp
  have 3: "fst (last (filter (\<lambda>e. snd e = b) (edges s))) = c" if "b \<notin> snd ` set es3"
  proof -
    from that have "filter (\<lambda>e. snd e = b) es3 = []" by (auto simp: filter_empty_conv)
    then show ?thesis unfolding e by simp
  qed
  from 1 2 3 show ?thesis
    using assms(2) e by simp
qed

text \<open>
  Claim C3, as amended. For every run that succeeds: when no component is a parent in a
  resolved edge and never a child, \<open>build_assembly_tree\<close> makes a virtual root and attaches
  to it, in the order of the components, every component that is nobody's child; when one
  or more components qualify, the first of them in the order of the components becomes
  the root and no virtual root is made.
\<close>

theorem root_selection:
  assumes "parse_batch files fs (parser_with dir main fb) = (True, st)"
  shows "(root_candidates st = [] \<longrightarrow>
            assembly_tree st = Some Virtual \<and> node_of st Virtual \<noteq> None
            \<and> children_of st Virtual = map Comp (orphans st)
            \<and> (\<forall>k\<in>set (orphans st). parent_of st (Comp k) = Some Virtual))
       \<and> (root_candidates st \<noteq> [] \<longrightarrow>
            assembly_tree st = Some (Comp (hd (root_candidates st))) \<and> node_of st Virtual = None)"
proof -
  from run_pre_build [OF assms(1)] obtain s where s: "pre_build s" "st = build_assembly_tree s"
    by blast
  then have k: "keys_ok s" and u: "unlinked s" by (simp_all add: pre_build_def)
  have p: "root_candidates st = root_candidates s" "orphans st = orphans s"
    using s(2) by (simp_all add: build_preserves [OF k])
  have v: "node_of s Virtual = None" using u by (simp add: node_of_def unlinked_def)
  have par: "parent_of st (Comp x) = Some Virtual" if "root_candidates s = []" "x \<in> set (orphans s)" for x
    using that unfolding s(2) build_parent [OF k u] by (auto simp: orphans_def)
  show ?thesis
    unfolding p
    using par v
    by (auto simp: s(2) build_tree [OF k] build_children [OF k u] split: list.splits)
qed

lemma fold_const: "(\<And>x a. f x a = a) \<Longrightarrow> fold f xs a = a"
  by (induction xs) simp_all

lemma no_products_no_relationships:
  "extract_assembly_relationships_from_content content [] rels = rels"
  unfolding extract_assembly_relationships_from_content_def
  by (rule fold_const)
     (simp add: resolve_product_from_definition_def has_key_def split: list.splits option.splits)

lemma keys_empty: "component_keys st = [] \<longleftrightarrow> all_components st = []"
  by (simp add: component_keys_def)

lemma process_main_no_products:
  assumes "fs mp = Some content" "content \<noteq> []" "extract_products_from_content content = []"
  shows "\<exists>st1. process_main_assembly fs mp (parser_with dir main fb) = (True, st1)
           \<and> all_components st1 = [] \<and> assembly_relationships st1 = []"
  using assms
  by (simp add: process_main_assembly_def load_file_content_def Let_def register_components_def
      no_products_no_relationships enumerate_eq_zip)

text \<open>
  Claim C4, as amended. A run without step files or without a primary document, or whose
  primary document is missing or empty, is a hard failure and leaves no tree. A run whose
  primary document has text from which no product is extracted is no failure: it succeeds
  without components, with a tree that is the virtual root alone.
\<close>

theorem no_products_virtual_root:
  "((files = [] \<or> main = None \<or> main = Some [] \<or> fs (path_join dir (the main)) = None
       \<or> fs (path_join dir (the main)) = Some [])
      \<longrightarrow> (\<exists>st. parse_batch files fs (parser_with dir main fb) = (False, st) \<and> assembly_tree st = None))
   \<and> (files \<noteq> [] \<and> main = Some m \<and> m \<noteq> [] \<and> fs (path_join dir m) = Some content \<and> content \<noteq> []
         \<and> extract_products_from_content content = []
      \<longrightarrow> (\<exists>st. parse_batch files fs (parser_with dir main fb) = (True, st) \<and> all_components st = []
             \<and> assembly_tree st = Some Virtual \<and> virtual_root st = Some virtual_node))"
proof (intro conjI impI)
  assume f: "files = [] \<or> main = None \<or> main = Some [] \<or> fs (path_join dir (the main)) = None
       \<or> fs (path_join dir (the main)) = Some []"
  have "process_main_assembly fs (path_join dir m') (parser_with dir main fb) = (False, parser_with dir main fb)"
    if "fs (path_join dir m') = Some []" for m'
    using that by (simp add: process_main_assembly_def load_file_content_def)
  with f show "\<exists>st. parse_batch files fs (parser_with dir main fb) = (False, st) \<and> assembly_tree st = None"
    by (cases main) (auto simp: parse_batch_def Let_def)
next
  assume h: "files \<noteq> [] \<and> main = Some m \<and> m \<noteq> [] \<and> fs (path_join dir m) = Some content \<and> content \<noteq> []
         \<and> extract_products_from_content content = []"
  then obtain st1 where st1: "process_main_assembly fs (path_join dir m) (parser_with dir main fb) = (True, st1)"
    "all_components st1 = []" "assembly_relationships st1 = []"
    using process_main_no_products [of fs "path_join dir m" content dir main fb] by blast
  let ?st2 = "supplement_annotations_from_files fs files st1"
  have "component_keys ?st2 = component_keys st1" by simp
  then have c: "all_components ?st2 = []" using st1(2) by (simp add: component_keys_def)
  have r: "assembly_relationships ?st2 = []" using st1(3) by simp
  have "parse_batch files fs (parser_with dir main fb) = (True, build_assembly_tree ?st2)"
    using h st1(1) by (simp add: parse_batch_def Let_def)
  moreover have "build_assembly_tree ?st2 = ?st2\<lparr>virtual_root := Some virtual_node, assembly_tree := Some Virtual\<rparr>"
    using c r by (simp add: build_assembly_tree_def attach_to_virtual_root_def)
  ultimately show "\<exists>st. parse_batch files fs (parser_with dir main fb) = (True, st) \<and> all_components st = []
             \<and> assembly_tree st = Some Virtual \<and> virtual_root st = Some virtual_node"
    using c by simp
qed

text \<open>
  Claim C6. The merge of the supplementer appends a candidate annotation only when no equal
  (name, description) pair is on the component: an annotation that was there keeps its
  number of copies, a new one is stored once however often the document offers it. So the
  annotations of the matched component after a document are the merge of the candidates
  into those before; supplementing from the same document twice gives the components that
  supplementing once gives; and after two documents that match the same component and both
  offer a pair the component did not have, the component has exactly one copy of it.
\<close>

theorem supplement_merge_skips_present:
  "(\<forall>p. count_list (merge_annotations ex cands) p =
         (if p \<in> set ex then count_list ex p else if p \<in> set cands then 1 else 0))
   \<and> (\<not> is_main_path st f
        \<and> all_file_annotations_of (enable_annotation_fallback st) (load_file_content fs f) = Some cands
        \<and> matching_component_of st f = Some r \<and> node_of st r \<noteq> None
      \<longrightarrow> annotations_of (supplement_annotations_from_files fs [f] st) r
            = merge_annotations (annotations_of st r) cands)
   \<and> all_components (supplement_annotations_from_files fs [f, f] st)
       = all_components (supplement_annotations_from_files fs [f] st)
   \<and> (\<not> is_main_path st f1 \<and> \<not> is_main_path st f2
        \<and> all_file_annotations_of (enable_annotation_fallback st) (load_file_content fs f1) = Some cands1
        \<and> all_file_annotations_of (enable_annotation_fallback st) (load_file_content fs f2) = Some cands2
        \<and> matching_component_of st f1 = Some r \<and> matching_component_of st f2 = Some r
        \<and> node_of st r \<noteq> None
        \<and> p \<in> set cands1 \<and> p \<in> set cands2 \<and> p \<notin> set (annotations_of st r)
      \<longrightarrow> count_list (annotations_of (supplement_annotations_from_files fs [f1, f2] st) r) p = 1)"
proof (intro conjI impI allI)
  fix q show "count_list (merge_annotations ex cands) q =
         (if q \<in> set ex then count_list ex q else if q \<in> set cands then 1 else 0)"
    by (rule merge_annotations_count)
next
  assume "\<not> is_main_path st f
        \<and> all_file_annotations_of (enable_annotation_fallback st) (load_file_content fs f) = Some cands
        \<and> matching_component_of st f = Some r \<and> node_of st r \<noteq> None"
  then show "annotations_of (supplement_annotations_from_files fs [f] st) r
            = merge_annotations (annotations_of st r) cands"
    by (simp add: supplement_annotations_from_files_def annotations_of_supplement_file)
next
  show "all_components (supplement_annotations_from_files fs [f, f] st)
       = all_components (supplement_annotations_from_files fs [f] st)"
    by (simp add: supplement_annotations_from_files_def supplement_file_twice)
next
  assume h: "\<not> is_main_path st f1 \<and> \<not> is_main_path st f2
        \<and> all_file_annotations_of (enable_annotation_fallback st) (load_file_content fs f1) = Some cands1
        \<and> all_file_annotations_of (enable_annotation_fallback st) (load_file_content fs f2) = Some cands2
        \<and> matching_component_of st f1 = Some r \<and> matching_component_of st f2 = Some r
        \<and> node_of st r \<noteq> None
        \<and> p \<in> set cands1 \<and> p \<in> set cands2 \<and> p \<notin> set (annotations_of st r)"
  let ?st1 = "supplement_file fs f1 st"
  have 1: "annotations_of ?st1 r = merge_annotations (annotations_of st r) cands1"
    using h by (simp add: annotations_of_supplement_file)
  have 2: "annotations_of (supplement_file fs f2 ?st1) r = merge_annotations (annotations_of ?st1 r) cands2"
    using h by (intro annotations_of_supplement_file) simp_all
  have "count_list (annotations_of ?st1 r) p = 1" "p \<in> set (annotations_of ?st1 r)"
    using h unfolding 1 by (simp_all add: merge_annotations_count merge_annotations_set)
  then show "count_list (annotations_of (supplement_annotations_from_files fs [f1, f2] st) r) p = 1"
    by (simp add: supplement_annotations_from_files_def 2 merge_annotations_count)
qed

lemma supplement_runs_before_build:
  assumes "parse_batch files fs (parser_with dir main fb) = (True, st)"
  shows "\<exists>m st1. main = Some m
          \<and> process_main_assembly fs (path_join dir m) (parser_with dir main fb) = (True, st1)
          \<and> assembly_tree st1 = None \<and> virtual_root st1 = None
          \<and> (\<forall>r. children_of st1 r = [] \<and> parent_of st1 r = None)
          \<and> st = build_assembly_tree (supplement_annotations_from_files fs files st1)"
proof -
  from parse_batch_success [OF assms] obtain m st1 where
    m: "main = Some m"
    and pm: "process_main_assembly fs (path_join dir m) (parser_with dir main fb) = (True, st1)"
    and st: "st = build_assembly_tree (supplement_annotations_from_files fs files st1)"
    by auto
  from pre_build_process_main [OF pre_build_parser_with, of fs "path_join dir m" dir main fb] pm
  have "unlinked st1" by (simp add: pre_build_def)
  then have "assembly_tree st1 = None" "virtual_root st1 = None"
    "\<forall>r. children_of st1 r = [] \<and> parent_of st1 r = None"
    by (simp_all add: unlinked_def unlinked_children unlinked_parent)
  with m pm st show ?thesis by blast
qed

lemma link_no_annotations:
  "link_annotations_to_products_in_content False content products [] = []"
proof -
  have 1: "repr_to_annotations_of content [] = []"
    unfolding repr_to_annotations_of_def
    by (rule fold_const) (simp add: has_key_def Let_def split: list.splits)
  show ?thesis
    by (simp add: link_annotations_to_products_in_content_def 1 Let_def)
qed

lemma no_usages_no_relationships:
  "findall re_usage content = [] \<Longrightarrow> extract_assembly_relationships_from_content content products rels = rels"
  by (simp add: extract_assembly_relationships_from_content_def)

lemma doc_tree_products:
  "extract_products_from_content doc_tree
     = [(''1'', ProductInfo ''Frame'' ''f'' ''1''), (''2'', ProductInfo ''Axle-1'' ''a'' ''2'')]"
  by code_simp

lemma doc_tree_annotations: "extract_annotations_from_content doc_tree = []"
  by code_simp

lemma doc_tree_links:
  "link_annotations_to_products_in_content False doc_tree
     [(''1'', ProductInfo ''Frame'' ''f'' ''1''), (''2'', ProductInfo ''Axle-1'' ''a'' ''2'')] [] = []"
  by (rule link_no_annotations)

lemma doc_tree_relationships:
  "extract_assembly_relationships_from_content doc_tree
     [(''1'', ProductInfo ''Frame'' ''f'' ''1''), (''2'', ProductInfo ''Axle-1'' ''a'' ''2'')] []
   = [\<lparr>parent_product_id = ''1'', child_product_id = ''2'',
        parent_product_name = ''Frame'', child_product_name = ''Axle-1''\<rparr>]"
  by code_simp

lemma doc_tree_nonempty: "doc_tree \<noteq> []"
  by (simp add: doc_tree_def)

lemma main_path: "path_join ''/d'' ''main.stp'' = ''/d/main.stp''"
  by code_simp

lemma tree_main:
  assumes "fs ''/d/main.stp'' = Some doc_tree"
  shows "process_main_assembly fs ''/d/main.stp'' (parser_with ''/d'' (Some ''main.stp'') False)
           = (True, tree_state)"
  using assms
  by (simp add: process_main_assembly_def load_file_content_def Let_def doc_tree_nonempty
      doc_tree_products doc_tree_annotations doc_tree_links doc_tree_relationships tree_state_def)

lemma tree_state_main: "is_main_path tree_state ''/d/main.stp''"
  by code_simp

lemma supplement_main_only:
  "is_main_path st f \<Longrightarrow> supplement_annotations_from_files fs [f] st = st"
  by (simp add: supplement_annotations_from_files_def supplement_file_eq)

lemma tree_run:
  "parse_batch [''/d/main.stp''] (map_of [(''/d/main.stp'', doc_tree)])
     (parser_with ''/d'' (Some ''main.stp'') False) = (True, build_assembly_tree tree_state)"
  by (simp add: parse_batch_def main_path tree_main supplement_main_only tree_state_main)

theorem assembly_tree_well_formed_witness:
  "parse_batch [''/d/main.stp''] (map_of [(''/d/main.stp'', doc_tree)])
     (parser_with ''/d'' (Some ''main.stp'') False) = (True, build_assembly_tree tree_state)
   \<and> edges (build_assembly_tree tree_state) = [(''P00001'', ''P00002'')]
   \<and> orphans (build_assembly_tree tree_state) = [''P00001'']
   \<and> tree_ok (build_assembly_tree tree_state)"
proof -
  have e: "edges (build_assembly_tree tree_state) = [(''P00001'', ''P00002'')]"
    by code_simp
  have o: "orphans (build_assembly_tree tree_state) = [''P00001'']"
    by code_simp
  have d: "distinct (map snd (edges (build_assembly_tree tree_state)))"
    by (simp add: e)
  have a: "acyclic (set (edges (build_assembly_tree tree_state)))"
    unfolding e
    by (rule acyclicI_order [where f = "\<lambda>k. if k = ''P00001'' then (1::nat) else 0"]) simp
  have "tree_ok (build_assembly_tree tree_state)"
    using assembly_tree_well_formed [OF tree_run d a] o by simp
  with tree_run e o show ?thesis by simp
qed

lemma doc_shared_products:
  "extract_products_from_content doc_shared
     = [(''1'', ProductInfo ''Frame'' ''f'' ''1''), (''2'', ProductInfo ''Axle'' ''a'' ''2''),
        (''3'', ProductInfo ''Arm'' ''r'' ''3'')]"
  by code_simp

lemma doc_shared_annotations: "extract_annotations_from_content doc_shared = []"
  by code_simp

lemma doc_shared_links:
  "link_annotations_to_products_in_content False doc_shared
     [(''1'', ProductInfo ''Frame'' ''f'' ''1''), (''2'', ProductInfo ''Axle'' ''a'' ''2''),
      (''3'', ProductInfo ''Arm'' ''r'' ''3'')] [] = []"
  by (rule link_no_annotations)

lemma doc_shared_relationships:
  "extract_assembly_relationships_from_content doc_shared
     [(''1'', ProductInfo ''Frame'' ''f'' ''1''), (''2'', ProductInfo ''Axle'' ''a'' ''2''),
      (''3'', ProductInfo ''Arm'' ''r'' ''3'')] []
   = [\<lparr>parent_product_id = ''1'', child_product_id = ''2'',
        parent_product_name = ''Frame'', child_product_name = ''Axle''\<rparr>,
      \<lparr>parent_product_id = ''3'', child_product_id = ''2'',
        parent_product_name = ''Arm'', child_product_name = ''Axle''\<rparr>]"
  by code_simp

lemma doc_shared_nonempty: "doc_shared \<noteq> []"
  by (simp add: doc_shared_def)

lemma shared_main:
  assumes "fs ''/d/main.stp'' = Some doc_shared"
  shows "process_main_assembly fs ''/d/main.stp'' (parser_with ''/d'' (Some ''main.stp'') False)
           = (True, shared_state)"
  using assms
  by (simp add: process_main_assembly_def load_file_content_def Let_def doc_shared_nonempty
      doc_shared_products doc_shared_annotations doc_shared_links doc_shared_relationships
      shared_state_def)

lemma shared_state_main: "is_main_path shared_state ''/d/main.stp''"
  by code_simp

lemma shared_run:
  "parse_batch [''/d/main.stp''] (map_of [(''/d/main.stp'', doc_shared)])
     (parser_with ''/d'' (Some ''main.stp'') False) = (True, build_assembly_tree shared_state)"
  by (simp add: parse_batch_def main_path shared_main supplement_main_only shared_state_main)

text \<open>
  Claim C1 as stated fails on a primary document with the edges Frame to Axle and Arm to
  Axle: the run succeeds, and Axle is in the \<open>children\<close> lists of both Frame and Arm.
\<close>

theorem shared_child_counterexample:
  "fst (parse_batch [''/d/main.stp''] (map_of [(''/d/main.stp'', doc_shared)])
         (parser_with ''/d'' (Some ''main.stp'') False))
   \<and> children_of (snd (parse_batch [''/d/main.stp''] (map_of [(''/d/main.stp'', doc_shared)])
         (parser_with ''/d'' (Some ''main.stp'') False))) (Comp ''P00001'') = [Comp ''P00002'']
   \<and> children_of (snd (parse_batch [''/d/main.stp''] (map_of [(''/d/main.stp'', doc_shared)])
         (parser_with ''/d'' (Some ''main.stp'') False))) (Comp ''P00003'') = [Comp ''P00002'']
   \<and> \<not> tree_ok (snd (parse_batch [''/d/main.stp''] (map_of [(''/d/main.stp'', doc_shared)])
         (parser_with ''/d'' (Some ''main.stp'') False)))"
proof -
  have 1: "children_of (build_assembly_tree shared_state) (Comp ''P00001'') = [Comp ''P00002'']"
    by code_simp
  have 3: "children_of (build_assembly_tree shared_state) (Comp ''P00003'') = [Comp ''P00002'']"
    by code_simp
  have "\<not> tree_ok (build_assembly_tree shared_state)"
  proof
    assume "tree_ok (build_assembly_tree shared_state)"
    then have "\<forall>p p' c. c \<in> set (children_of (build_assembly_tree shared_state) p)
        \<and> c \<in> set (children_of (build_assembly_tree shared_state) p') \<longrightarrow> p = p'"
      unfolding tree_ok_def by blast
    then have "Comp ''P00001'' = Comp ''P00003''"
      using 1 3 by (metis list.set_intros(1))
    then show False by simp
  qed
  with 1 3 shared_run show ?thesis by simp
qed

text \<open>
  Claim C2 as stated fails on the same document: after tree building the \<open>parent\<close> of Axle
  is Arm, the parent of the later edge, and Arm has Axle as its child.
\<close>

theorem first_parent_counterexample:
  "parse_batch [''/d/main.stp''] (map_of [(''/d/main.stp'', doc_shared)])
     (parser_with ''/d'' (Some ''main.stp'') False) = (True, build_assembly_tree shared_state)
   \<and> edges (build_assembly_tree shared_state) = [(''P00001'', ''P00002''), (''P00003'', ''P00002'')]
   \<and> parent_of (build_assembly_tree shared_state) (Comp ''P00002'') = Some (Comp ''P00003'')
   \<and> children_of (build_assembly_tree shared_state) (Comp ''P00003'') = [Comp ''P00002'']"
proof -
  have "edges (build_assembly_tree shared_state) = [(''P00001'', ''P00002''), (''P00003'', ''P00002'')]"
    by code_simp
  moreover have "parent_of (build_assembly_tree shared_state) (Comp ''P00002'') = Some (Comp ''P00003'')"
    by code_simp
  moreover have "children_of (build_assembly_tree shared_state) (Comp ''P00003'') = [Comp ''P00002'']"
    by code_simp
  ultimately show ?thesis using shared_run by simp
qed

theorem last_parent_wins_witness:
  "parse_batch [''/d/main.stp''] (map_of [(''/d/main.stp'', doc_shared)])
     (parser_with ''/d'' (Some ''main.stp'') False) = (True, build_assembly_tree shared_state)
   \<and> edges (build_assembly_tree shared_state)
       = [] @ [(''P00001'', ''P00002'')] @ [] @ [(''P00003'', ''P00002'')] @ []
   \<and> ''P00001'' \<noteq> ''P00003''
   \<and> Comp ''P00002'' \<in> set (children_of (build_assembly_tree shared_state) (Comp ''P00001''))
   \<and> Comp ''P00002'' \<in> set (children_of (build_assembly_tree shared_state) (Comp ''P00003''))
   \<and> parent_of (build_assembly_tree shared_state) (Comp ''P00002'') = Some (Comp ''P00003'')"
proof -
  have e: "edges (build_assembly_tree shared_state)
       = [] @ [(''P00001'', ''P00002'')] @ [] @ [(''P00003'', ''P00002'')] @ []"
    by code_simp
  have n: "''P00001'' \<noteq> ''P00003''" by simp
  from last_parent_wins [OF shared_run e n] shared_run e show ?thesis by simp
qed

text \<open>
  Claim C3 as stated fails on the same document: two components, Frame and Arm, are a
  parent in a resolved edge and never a child, yet no virtual root is made; Frame becomes
  the root, and Arm, which is nobody's child, is attached to nothing.
\<close>

theorem two_candidates_counterexample:
  "parse_batch [''/d/main.stp''] (map_of [(''/d/main.stp'', doc_shared)])
     (parser_with ''/d'' (Some ''main.stp'') False) = (True, build_assembly_tree shared_state)
   \<and> root_candidates (build_assembly_tree shared_state) = [''P00001'', ''P00003'']
   \<and> assembly_tree (build_assembly_tree shared_state) = Some (Comp ''P00001'')
   \<and> virtual_root (build_assembly_tree shared_state) = None
   \<and> parent_of (build_assembly_tree shared_state) (Comp ''P00003'') = None"
proof -
  have "root_candidates (build_assembly_tree shared_state) = [''P00001'', ''P00003'']"
    by code_simp
  moreover have "assembly_tree (build_assembly_tree shared_state) = Some (Comp ''P00001'')"
    by code_simp
  moreover have "virtual_root (build_assembly_tree shared_state) = None"
    by code_simp
  moreover have "parent_of (build_assembly_tree shared_state) (Comp ''P00003'') = None"
    by code_simp
  ultimately show ?thesis using shared_run by simp
qed

lemma doc_torque_products:
  "extract_products_from_content doc_torque = [(''1'', ProductInfo ''Axle'' ''a'' ''1'')]"
  by code_simp

lemma doc_torque_annotations:
  "extract_annotations_from_content doc_torque
     = [(''4'', Annotation ''Torque'' ''10 Nm''), (''5'', Annotation ''Torque'' ''10 Nm'')]"
  by code_simp

lemma doc_torque_links:
  "link_annotations_to_products_in_content False doc_torque [(''1'', ProductInfo ''Axle'' ''a'' ''1'')]
     [(''4'', Annotation ''Torque'' ''10 Nm''), (''5'', Annotation ''Torque'' ''10 Nm'')]
   = [(''1'', [Annotation ''Torque'' ''10 Nm'', Annotation ''Torque'' ''10 Nm''])]"
  by code_simp

lemma doc_torque_usages: "findall re_usage doc_torque = []"
  by code_simp

lemma doc_torque_token: "contains ''DESCRIPTIVE_REPRESENTATION_ITEM'' doc_torque"
  by code_simp

lemma doc_torque_nonempty: "doc_torque \<noteq> []"
  by (simp add: doc_torque_def)

lemma doc_torque_candidates:
  "all_file_annotations_of False doc_torque
     = Some [Annotation ''Torque'' ''10 Nm'', Annotation ''Torque'' ''10 Nm'']"
  by (simp add: all_file_annotations_of_def doc_torque_nonempty doc_torque_token doc_torque_products
      doc_torque_annotations doc_torque_links)

lemma torque_main:
  assumes "fs ''/d/main.stp'' = Some doc_torque"
  shows "process_main_assembly fs ''/d/main.stp'' (parser_with ''/d'' (Some ''main.stp'') False)
           = (True, torque_state)"
  using assms
  by (simp add: process_main_assembly_def load_file_content_def Let_def doc_torque_nonempty
      doc_torque_products doc_torque_annotations doc_torque_links
      no_usages_no_relationships [OF doc_torque_usages] torque_state_def)

lemma torque_state_main: "is_main_path torque_state ''/d/main.stp''"
  by code_simp

lemma torque_run:
  "parse_batch [''/d/main.stp''] (map_of [(''/d/main.stp'', doc_torque)])
     (parser_with ''/d'' (Some ''main.stp'') False) = (True, build_assembly_tree torque_state)"
  by (simp add: parse_batch_def main_path torque_main supplement_main_only torque_state_main)

theorem duplicate_annotations_in_primary_document:
  "parse_batch [''/d/main.stp''] (map_of [(''/d/main.stp'', doc_torque)])
     (parser_with ''/d'' (Some ''main.stp'') False) = (True, build_assembly_tree torque_state)
   \<and> annotations_of (build_assembly_tree torque_state) (Comp ''P00001'')
       = [Annotation ''Torque'' ''10 Nm'', Annotation ''Torque'' ''10 Nm'']
   \<and> \<not> distinct (annotations_of (build_assembly_tree torque_state) (Comp ''P00001''))"
proof -
  have a: "annotations_of (build_assembly_tree torque_state) (Comp ''P00001'')
       = [Annotation ''Torque'' ''10 Nm'', Annotation ''Torque'' ''10 Nm'']"
    by code_simp
  then have "\<not> distinct (annotations_of (build_assembly_tree torque_state) (Comp ''P00001''))"
    by simp
  with a torque_run show ?thesis by simp
qed

theorem root_selection_witness:
  "parse_batch [''/d/main.stp''] (map_of [(''/d/main.stp'', doc_torque)])
     (parser_with ''/d'' (Some ''main.stp'') False) = (True, build_assembly_tree torque_state)
   \<and> root_candidates (build_assembly_tree torque_state) = []
   \<and> orphans (build_assembly_tree torque_state) = [''P00001'']
   \<and> assembly_tree (build_assembly_tree torque_state) = Some Virtual
   \<and> children_of (build_assembly_tree torque_state) Virtual = [Comp ''P00001'']
   \<and> parent_of (build_assembly_tree torque_state) (Comp ''P00001'') = Some Virtual
   \<and> parse_batch [''/d/main.stp''] (map_of [(''/d/main.stp'', doc_tree)])
     (parser_with ''/d'' (Some ''main.stp'') False) = (True, build_assembly_tree tree_state)
   \<and> root_candidates (build_assembly_tree tree_state) = [''P00001'']
   \<and> assembly_tree (build_assembly_tree tree_state) = Some (Comp ''P00001'')
   \<and> node_of (build_assembly_tree tree_state) Virtual = None"
proof -
  have c: "root_candidates (build_assembly_tree torque_state) = []"
    and o: "orphans (build_assembly_tree torque_state) = [''P00001'']"
    and c': "root_candidates (build_assembly_tree tree_state) = [''P00001'']"
    by code_simp+
  from root_selection [OF torque_run] root_selection [OF tree_run] c o c' torque_run tree_run
  show ?thesis by simp
qed

lemma aux_files_simps:
  "aux_files ''/d/main.stp'' = Some doc_tree"
  "aux_files ''/d/Axle.stp'' = Some doc_torque"
  "aux_files ''/d/Frame.stp'' = Some doc_torque"
  "aux_files ''/d/sub/AXLE-2.step'' = Some doc_torque"
  by (simp_all add: aux_files_def)

lemma supplement_file_main: "is_main_path st f \<Longrightarrow> supplement_file fs f st = st"
  by (simp add: supplement_file_eq)

lemma supplement_file_matched:
  assumes "\<not> is_main_path st f"
    and "enable_annotation_fallback st = fb" and "fs f = Some content"
    and "all_file_annotations_of fb content = Some cands"
    and "matching_component_of st f = Some r"
  shows "supplement_file fs f st
           = (update_node r (merge_into f cands) st)\<lparr>parser_annotation_files := parser_annotation_files st @ [f]\<rparr>"
  using assms by (simp add: supplement_file_eq load_file_content_def)

lemma aux_supplement:
  "supplement_annotations_from_files aux_files [''/d/Axle.stp'', ''/d/main.stp'', ''/d/Frame.stp''] tree_state
     = supplemented_state"
proof -
  let ?T = "[Annotation ''Torque'' ''10 Nm'', Annotation ''Torque'' ''10 Nm'']"
  let ?st1 = "(update_node (Comp ''P00002'') (merge_into ''/d/Axle.stp'' ?T) tree_state)
                \<lparr>parser_annotation_files := parser_annotation_files tree_state @ [''/d/Axle.stp'']\<rparr>"
  have 1: "supplement_file aux_files ''/d/Axle.stp'' tree_state = ?st1"
  proof (rule supplement_file_matched [where fs = aux_files and f = "''/d/Axle.stp''",
        OF _ _ aux_files_simps(2) doc_torque_candidates])
    show "\<not> is_main_path tree_state ''/d/Axle.stp''" by code_simp
    show "enable_annotation_fallback tree_state = False" by code_simp
    show "matching_component_of tree_state ''/d/Axle.stp'' = Some (Comp ''P00002'')" by code_simp
  qed
  have 2: "supplement_file aux_files ''/d/main.stp'' ?st1 = ?st1"
    by (rule supplement_file_main) code_simp
  have 3: "supplement_file aux_files ''/d/Frame.stp'' ?st1
      = (update_node (Comp ''P00001'') (merge_into ''/d/Frame.stp'' ?T) ?st1)
         \<lparr>parser_annotation_files := parser_annotation_files ?st1 @ [''/d/Frame.stp'']\<rparr>"
  proof (rule supplement_file_matched [where fs = aux_files and f = "''/d/Frame.stp''",
        OF _ _ aux_files_simps(3) doc_torque_candidates])
    show "\<not> is_main_path ?st1 ''/d/Frame.stp''" by code_simp
    show "enable_annotation_fallback ?st1 = False" by code_simp
    show "matching_component_of ?st1 ''/d/Frame.stp'' = Some (Comp ''P00001'')" by code_simp
  qed
  show ?thesis
    unfolding supplement_annotations_from_files_def supplemented_state_def Let_def
    by (simp only: fold_simps 1 2 3)
qed

lemma aux_run:
  "parse_batch [''/d/Axle.stp'', ''/d/main.stp'', ''/d/Frame.stp''] aux_files
     (parser_with ''/d'' (Some ''main.stp'') False) = (True, build_assembly_tree supplemented_state)"
  by (simp add: parse_batch_def main_path tree_main aux_files_simps aux_supplement)

theorem root_annotated_before_tree_exists:
  "parse_batch [''/d/Axle.stp'', ''/d/main.stp'', ''/d/Frame.stp''] aux_files
     (parser_with ''/d'' (Some ''main.stp'') False) = (True, build_assembly_tree supplemented_state)
   \<and> process_main_assembly aux_files ''/d/main.stp'' (parser_with ''/d'' (Some ''main.stp'') False)
       = (True, tree_state)
   \<and> assembly_tree tree_state = None
   \<and> supplement_annotations_from_files aux_files [''/d/Axle.stp'', ''/d/main.stp'', ''/d/Frame.stp''] tree_state
       = supplemented_state
   \<and> assembly_tree supplemented_state = None
   \<and> assembly_tree (build_assembly_tree supplemented_state) = Some (Comp ''P00001'')
   \<and> annotations_of tree_state (Comp ''P00001'') = []
   \<and> annotations_of (build_assembly_tree supplemented_state) (Comp ''P00001'')
       = [Annotation ''Torque'' ''10 Nm'']
   \<and> matching_component_of (build_assembly_tree supplemented_state) ''/d/Frame.stp'' = None"
proof -
  have "assembly_tree tree_state = None" "assembly_tree supplemented_state = None"
    "assembly_tree (build_assembly_tree supplemented_state) = Some (Comp ''P00001'')"
    "annotations_of tree_state (Comp ''P00001'') = []"
    "annotations_of (build_assembly_tree supplemented_state) (Comp ''P00001'') = [Annotation ''Torque'' ''10 Nm'']"
    "matching_component_of (build_assembly_tree supplemented_state) ''/d/Frame.stp'' = None"
    by code_simp+
  with aux_run aux_supplement tree_main [of aux_files, OF aux_files_simps(1)] show ?thesis by simp
qed

theorem supplement_merge_skips_present_witness:
  "\<not> is_main_path tree_state ''/d/Axle.stp'' \<and> \<not> is_main_path tree_state ''/d/sub/AXLE-2.step''
   \<and> all_file_annotations_of (enable_annotation_fallback tree_state)
         (load_file_content aux_files ''/d/Axle.stp'')
       = Some [Annotation ''Torque'' ''10 Nm'', Annotation ''Torque'' ''10 Nm'']
   \<and> all_file_annotations_of (enable_annotation_fallback tree_state)
         (load_file_content aux_files ''/d/sub/AXLE-2.step'')
       = Some [Annotation ''Torque'' ''10 Nm'', Annotation ''Torque'' ''10 Nm'']
   \<and> matching_component_of tree_state ''/d/Axle.stp'' = Some (Comp ''P00002'')
   \<and> matching_component_of tree_state ''/d/sub/AXLE-2.step'' = Some (Comp ''P00002'')
   \<and> node_of tree_state (Comp ''P00002'') \<noteq> None
   \<and> annotations_of tree_state (Comp ''P00002'') = []
   \<and> annotations_of (supplement_annotations_from_files aux_files [''/d/Axle.stp''] tree_state)
         (Comp ''P00002'')
       = [Annotation ''Torque'' ''10 Nm'']
   \<and> all_components (supplement_annotations_from_files aux_files [''/d/Axle.stp'', ''/d/Axle.stp''] tree_state)
       = all_components (supplement_annotations_from_files aux_files [''/d/Axle.stp''] tree_state)
   \<and> count_list (annotations_of
         (supplement_annotations_from_files aux_files [''/d/Axle.stp'', ''/d/sub/AXLE-2.step''] tree_state)
         (Comp ''P00002'')) (Annotation ''Torque'' ''10 Nm'') = 1"
proof -
  let ?T = "Annotation ''Torque'' ''10 Nm''"
  have fb: "enable_annotation_fallback tree_state = False" by code_simp
  have m1: "\<not> is_main_path tree_state ''/d/Axle.stp''"
    and m2: "\<not> is_main_path tree_state ''/d/sub/AXLE-2.step''"
    by code_simp+
  have c1: "all_file_annotations_of (enable_annotation_fallback tree_state)
         (load_file_content aux_files ''/d/Axle.stp'') = Some [?T, ?T]"
    and c2: "all_file_annotations_of (enable_annotation_fallback tree_state)
         (load_file_content aux_files ''/d/sub/AXLE-2.step'') = Some [?T, ?T]"
    by (simp_all add: fb load_file_content_def aux_files_simps doc_torque_candidates)
  have r1: "matching_component_of tree_state ''/d/Axle.stp'' = Some (Comp ''P00002'')"
    and r2: "matching_component_of tree_state ''/d/sub/AXLE-2.step'' = Some (Comp ''P00002'')"
    by code_simp+
  have n: "node_of tree_state (Comp ''P00002'') \<noteq> None" by code_simp
  have a: "annotations_of tree_state (Comp ''P00002'') = []" by code_simp
  have mg: "merge_annotations [] [?T, ?T] = [?T]" by code_simp
  note inst = supplement_merge_skips_present
    [of "[]" "[?T, ?T]" tree_state "''/d/Axle.stp''" aux_files "Comp ''P00002''"
        "''/d/Axle.stp''" "''/d/sub/AXLE-2.step''" "[?T, ?T]" "[?T, ?T]" "?T"]
  from inst m1 m2 c1 c2 r1 r2 n a mg show ?thesis
    by simp
qed

lemma no_products_run:
  assumes "files \<noteq> []" "m \<noteq> []" "fs (path_join dir m) = Some content" "content \<noteq> []"
    and "extract_products_from_content content = []"
  shows "\<exists>st. parse_batch files fs (parser_with dir (Some m) fb) = (True, st) \<and> all_components st = []
             \<and> assembly_tree st = Some Virtual \<and> virtual_root st = Some virtual_node"
proof -
  from assms obtain st1 where st1: "process_main_assembly fs (path_join dir m) (parser_with dir (Some m) fb) = (True, st1)"
    "all_components st1 = []" "assembly_relationships st1 = []"
    using process_main_no_products [of fs "path_join dir m" content dir "Some m" fb] by blast
  let ?st2 = "supplement_annotations_from_files fs files st1"
  have "component_keys ?st2 = component_keys st1" by simp
  then have c: "all_components ?st2 = []" using st1(2) by (simp add: component_keys_def)
  have r: "assembly_relationships ?st2 = []" using st1(3) by simp
  have "parse_batch files fs (parser_with dir (Some m) fb) = (True, build_assembly_tree ?st2)"
    using assms st1(1) by (simp add: parse_batch_def Let_def)
  moreover have "build_assembly_tree ?st2 = ?st2\<lparr>virtual_root := Some virtual_node, assembly_tree := Some Virtual\<rparr>"
    using c r by (simp add: build_assembly_tree_def attach_to_virtual_root_def)
  ultimately show ?thesis
    using c by simp
qed

lemma doc_empty_data_products: "extract_products_from_content doc_empty_data = []"
  by code_simp

text \<open>
  Claim C4 as stated fails on a primary document without entity statements: no product
  is extracted, yet the run succeeds and produces a tree, the virtual root.
\<close>

theorem no_products_counterexample:
  "extract_products_from_content doc_empty_data = []
   \<and> fst (parse_batch [''/d/main.stp''] (map_of [(''/d/main.stp'', doc_empty_data)])
            (parser_with ''/d'' (Some ''main.stp'') False))
   \<and> assembly_tree (snd (parse_batch [''/d/main.stp''] (map_of [(''/d/main.stp'', doc_empty_data)])
            (parser_with ''/d'' (Some ''main.stp'') False))) = Some Virtual"
proof -
  have "doc_empty_data \<noteq> []" by (simp add: doc_empty_data_def)
  with no_products_run [of "[''/d/main.stp'']" "''main.stp''" "map_of [(''/d/main.stp'', doc_empty_data)]"
      "''/d''" doc_empty_data False] doc_empty_data_products main_path
  show ?thesis by auto
qed

theorem no_products_virtual_root_witness:
  "extract_products_from_content doc_empty_data = [] \<and> doc_empty_data \<noteq> []
   \<and> (\<exists>st. parse_batch [''/d/main.stp''] (map_of [(''/d/main.stp'', doc_empty_data)])
            (parser_with ''/d'' (Some ''main.stp'') False) = (True, st) \<and> all_components st = []
          \<and> assembly_tree st = Some Virtual \<and> virtual_root st = Some virtual_node)
   \<and> (\<exists>st. parse_batch [''/d/main.stp''] (map_of [(''/d/main.stp'', [])])
            (parser_with ''/d'' (Some ''main.stp'') False) = (False, st) \<and> assembly_tree st = None)"
proof -
  have ne: "doc_empty_data \<noteq> []" by (simp add: doc_empty_data_def)
  from no_products_virtual_root [of "[''/d/main.stp'']" "Some ''main.stp''"
      "map_of [(''/d/main.stp'', doc_empty_data)]" "''/d''" False "''main.stp''" doc_empty_data]
    no_products_virtual_root [of "[''/d/main.stp'']" "Some ''main.stp''"
      "map_of [(''/d/main.stp'', [])]" "''/d''" False "''main.stp''" doc_empty_data]
    ne doc_empty_data_products main_path
  show ?thesis by simp
qed

end
